theory Spec2Isabelle
  imports Main
begin

section \<open>JavaScript strings\<close>

text \<open>
  A JavaScript string is a sequence of UTF-16 code units. A code unit is modelled by its
  numeric value, an integer, and a string as a list of them, so that characters outside
  ASCII (the typographic quotation marks U+201C, U+201D, U+2018, U+2019) can be written
  down. \<open>str\<close> turns an Isabelle string literal into such a list.
\<close>

type_synonym jschar = int
type_synonym jsstring = "jschar list"

definition str :: "string \<Rightarrow> jsstring" where
  "str s = map of_char s"

definition dquote :: jschar where "dquote = 34"
definition squote :: jschar where "squote = 39"
definition newline :: jschar where "newline = 10"

text \<open>
  White space as \<open>String.prototype.trim\<close> and the regular expression class \<open>\s\<close> see it:
  ECMAScript's WhiteSpace and LineTerminator productions (TAB, LF, VT, FF, CR, SP, NBSP,
  U+1680, U+2000..U+200A, U+2028, U+2029, U+202F, U+205F, U+3000, U+FEFF).
\<close>

definition isSpace :: "jschar \<Rightarrow> bool" where
  "isSpace c \<longleftrightarrow>
     (9 \<le> c \<and> c \<le> 13) \<or> c = 32 \<or> c = 160 \<or> c = 5760 \<or> (8192 \<le> c \<and> c \<le> 8202) \<or>
     c = 8232 \<or> c = 8233 \<or> c = 8239 \<or> c = 8287 \<or> c = 12288 \<or> c = 65279"

definition trimStart :: "jsstring \<Rightarrow> jsstring" where
  "trimStart s = dropWhile isSpace s"

definition trimEnd :: "jsstring \<Rightarrow> jsstring" where
  "trimEnd s = rev (dropWhile isSpace (rev s))"

definition trim :: "jsstring \<Rightarrow> jsstring" where
  "trim s = trimEnd (trimStart s)"

definition startsWith :: "jsstring \<Rightarrow> jsstring \<Rightarrow> bool" where
  "startsWith s p \<longleftrightarrow> take (length p) s = p"

definition endsWith :: "jsstring \<Rightarrow> jsstring \<Rightarrow> bool" where
  "endsWith s p \<longleftrightarrow> length p \<le> length s \<and> drop (length s - length p) s = p"

text \<open>
  \<open>s.slice(a, b)\<close>: a negative index counts from the end, both are clamped to the
  string, and an empty string results when the start is not before the end.
\<close>

definition slice :: "jsstring \<Rightarrow> int \<Rightarrow> int \<Rightarrow> jsstring" where
  "slice s a b =
     (let n = int (length s);
          from = (if a < 0 then max (n + a) 0 else min a n);
          to = (if b < 0 then max (n + b) 0 else min b n)
      in take (nat (to - from)) (drop (nat from) s))"

section \<open>Quote Normalizer\<close>

text \<open>
  The list of quote characters exactly as \<open>stripQuotes\<close> and \<open>isBlockComplete\<close> declare
  it: six one-character strings, the straight double quote three times and the straight
  single quote three times.
\<close>

definition quoteChars :: "jschar list" where
  "quoteChars = [dquote, dquote, dquote, squote, squote, squote]"

text \<open>The \<open>for (const quote of quoteChars)\<close> loop of \<open>stripQuotes\<close>, on the trimmed text.\<close>

fun stripQuotes_loop :: "jschar list \<Rightarrow> jsstring \<Rightarrow> jsstring" where
  "stripQuotes_loop [] text = text"
| "stripQuotes_loop (quote # rest) text =
     (if startsWith text [quote] \<and> endsWith text [quote] \<and> length text > 1
      then trim (slice text 1 (- 1))
      else stripQuotes_loop rest text)"

definition stripQuotes :: "jsstring \<Rightarrow> jsstring" where
  "stripQuotes text = stripQuotes_loop quoteChars (trim text)"

section \<open>Excerpt Locator\<close>

text \<open>
  \<open>s.substring(a, b)\<close>: both indices are clamped to the string and swapped when the
  first exceeds the second.
\<close>

definition substring :: "jsstring \<Rightarrow> int \<Rightarrow> int \<Rightarrow> jsstring" where
  "substring s a b =
     (let n = int (length s);
          a' = max 0 (min a n);
          b' = max 0 (min b n);
          lo = min a' b';
          hi = max a' b'
      in take (nat (hi - lo)) (drop (nat lo) s))"

text \<open>
  \<open>s.indexOf(p, pos)\<close>: the least index at or after the clamped start where \<open>p\<close> occurs,
  or \<open>-1\<close>. \<open>indexOf_scan\<close> walks the rest of the string, \<open>k\<close> being the index of its head.
\<close>

fun indexOf_scan :: "jsstring \<Rightarrow> jsstring \<Rightarrow> nat \<Rightarrow> int" where
  "indexOf_scan p [] k = (if p = [] then int k else - 1)"
| "indexOf_scan p (c # cs) k =
     (if take (length p) (c # cs) = p then int k else indexOf_scan p cs (Suc k))"

definition indexOf :: "jsstring \<Rightarrow> jsstring \<Rightarrow> int \<Rightarrow> int" where
  "indexOf s p pos =
     (let start = nat (max 0 (min pos (int (length s))))
      in indexOf_scan p (drop start s) start)"

definition includes_str :: "jsstring \<Rightarrow> jsstring \<Rightarrow> bool" where
  "includes_str s p \<longleftrightarrow> indexOf s p 0 \<noteq> - 1"

text \<open>The result object \<open>{ index, length }\<close>.\<close>

record span =
  span_index :: int
  span_length :: int

definition searchWindow :: int where
  "searchWindow = 50"

text \<open>
  The inner \<open>for (let offset = -searchWindow; offset <= searchWindow; offset++)\<close> loop of
  \<open>findExcerptPartialMatch\<close>, from the current \<open>offset\<close> on.
\<close>

function window_loop ::
  "jsstring \<Rightarrow> jsstring \<Rightarrow> int \<Rightarrow> int \<Rightarrow> int \<Rightarrow> int \<Rightarrow> span option" where
  "window_loop text suffix matchLength prefixIndex expectedSuffixStart offset =
     (if offset \<le> searchWindow then
        (let suffixIndex = expectedSuffixStart + offset in
         if suffixIndex \<ge> 0 \<and> substring text suffixIndex (suffixIndex + matchLength) = suffix
         then (let actualLength = suffixIndex + matchLength - prefixIndex
               in Some \<lparr>span_index = prefixIndex, span_length = actualLength\<rparr>)
         else window_loop text suffix matchLength prefixIndex expectedSuffixStart (offset + 1))
      else None)"
  by pat_completeness auto
termination
  by (relation "measure (\<lambda>(text, suffix, matchLength, prefixIndex, expectedSuffixStart, offset).
        nat (searchWindow + 1 - offset))") auto

lemma indexOf_scan_bounds:
  "p \<noteq> [] \<Longrightarrow> indexOf_scan p s k \<noteq> - 1 \<Longrightarrow>
     int k \<le> indexOf_scan p s k \<and> indexOf_scan p s k < int (k + length s)"
  by (induction p s k rule: indexOf_scan.induct) (auto split: if_splits)

lemma indexOf_bounds:
  assumes "p \<noteq> []" and "indexOf s p pos \<noteq> - 1"
  shows "pos \<le> indexOf s p pos \<and> 0 \<le> indexOf s p pos \<and> indexOf s p pos < int (length s)"
proof -
  define start where "start = nat (max 0 (min pos (int (length s))))"
  have eq: "indexOf s p pos = indexOf_scan p (drop start s) start"
    by (simp add: indexOf_def start_def Let_def)
  with assms have found: "indexOf_scan p (drop start s) start \<noteq> - 1" by simp
  from indexOf_scan_bounds [OF assms(1) this]
  have b: "int start \<le> indexOf s p pos" "indexOf s p pos < int (start + length (drop start s))"
    by (simp_all add: eq)
  have "drop start s \<noteq> []" using found assms(1) by (cases "drop start s") auto
  then have "start < length s" by simp
  then have "pos \<le> int start" by (auto simp: start_def)
  with b \<open>start < length s\<close> show ?thesis by auto
qed

text \<open>
  The outer \<open>while (true)\<close> loop: one round per occurrence of the prefix, from
  \<open>searchStart\<close> on. The loop is entered with a non-empty prefix only (the excerpt has
  at least 20 characters, so \<open>matchLength\<close> is at least 5, see \<open>prefix_nonempty\<close> below);
  with the empty prefix the JavaScript loop would not end, and the first test keeps the
  function total there. Otherwise every round restarts strictly after the occurrence it
  has just tried.
\<close>

function prefix_loop ::
  "jsstring \<Rightarrow> jsstring \<Rightarrow> int \<Rightarrow> jsstring \<Rightarrow> jsstring \<Rightarrow> int \<Rightarrow> span option" where
  "prefix_loop text excerpt matchLength prefix suffix searchStart =
     (if prefix = [] then None
      else
        (let prefixIndex = indexOf text prefix searchStart in
         if prefixIndex = - 1 then None
         else
           (let expectedSuffixStart = prefixIndex + int (length excerpt) - matchLength in
            case window_loop text suffix matchLength prefixIndex expectedSuffixStart
                   (- searchWindow) of
              Some found \<Rightarrow> Some found
            | None \<Rightarrow> prefix_loop text excerpt matchLength prefix suffix (prefixIndex + 1))))"
  by pat_completeness auto
termination
proof (relation "measure (\<lambda>(text, excerpt, matchLength, prefix, suffix, searchStart).
        nat (int (length text) + 1 - searchStart))", goal_cases)
  case 1
  show ?case by simp
next
  case (2 doc excerpt matchLength pre suf searchStart prefixIndex expectedSuffixStart)
  then have "indexOf doc pre searchStart \<noteq> - 1" by simp
  from indexOf_bounds [OF 2(1) this] 2(2) show ?case by simp
qed

text \<open>
  \<open>Math.floor(excerpt.length * 0.25)\<close> is the integer quotient by four: a quarter of a
  string length is exact in double precision.
\<close>

definition findExcerptPartialMatch :: "jsstring \<Rightarrow> jsstring \<Rightarrow> span option" where
  "findExcerptPartialMatch text excerpt =
     (if length excerpt < 20 then None
      else
        (let matchLength = min 50 (int (length excerpt) div 4);
             prefix = substring excerpt 0 matchLength;
             suffix = substring excerpt (int (length excerpt) - matchLength)
                        (int (length excerpt))
         in prefix_loop text excerpt matchLength prefix suffix 0))"

section \<open>Regular expressions\<close>

text \<open>
  The parser is written with JavaScript regular expressions. They are embedded as terms of
  a small datatype holding the constructs the program uses, with the backtracking
  semantics of ECMAScript: a character class, concatenation, alternation, greedy and lazy
  repetition of a character class, a capture group, a positive lookahead and the
  end-of-input assertion \<open>$\<close> (no pattern here has the \<open>m\<close> flag).
\<close>

datatype cls = Any | Space | Digit | Lit jschar | LitI jschar

definition upperASCII :: "jschar \<Rightarrow> jschar" where
  "upperASCII c = (if 97 \<le> c \<and> c \<le> 122 then c - 32 else c)"

definition lowerASCII :: "jschar \<Rightarrow> jschar" where
  "lowerASCII c = (if 65 \<le> c \<and> c \<le> 90 then c + 32 else c)"

text \<open>
  \<open>Any\<close> is the dot under the \<open>s\<close> flag, \<open>Lit\<close> a literal character, \<open>LitI\<close> a literal
  character under the \<open>i\<close> flag. Every literal in the program's patterns is ASCII, and
  for an ASCII pattern character ECMAScript's case-insensitive comparison (without the
  \<open>u\<close> flag) accepts exactly the character itself and its other ASCII case: a code unit
  above 127 is never canonicalised to an ASCII one.
\<close>

fun classMatch :: "cls \<Rightarrow> jschar \<Rightarrow> bool" where
  "classMatch Any c = True"
| "classMatch Space c = isSpace c"
| "classMatch Digit c = (48 \<le> c \<and> c \<le> 57)"
| "classMatch (Lit a) c = (c = a)"
| "classMatch (LitI a) c = (upperASCII c = upperASCII a)"

datatype re =
    Eps
  | Sym cls
  | Seq re re
  | Alt re re
  | Star cls
  | Plus cls
  | LazyStar cls
  | LazyPlus cls
  | Group nat re
  | Lookahead re
  | Eos

fun seqs :: "re list \<Rightarrow> re" where
  "seqs [] = Eps"
| "seqs [r] = r"
| "seqs (r # rs) = Seq r (seqs rs)"

definition literal :: "jsstring \<Rightarrow> re" where
  "literal s = seqs (map (\<lambda>c. Sym (Lit c)) s)"

definition literalI :: "jsstring \<Rightarrow> re" where
  "literalI s = seqs (map (\<lambda>c. Sym (LitI c)) s)"

text \<open>
  A matcher state is the input still to be read and the captures made so far (the latest
  first). \<open>matches r st\<close> lists, in the order in which backtracking tries them, the
  states in which \<open>r\<close> can leave the matcher when started in \<open>st\<close>: the first element is
  the choice backtracking prefers, the next is what it falls back to when the rest of
  the pattern fails, and so on. A greedy repetition tries the longest run first, a lazy
  one the shortest; a lookahead keeps the first way its body matches and consumes
  nothing.
\<close>

type_synonym captures = "(nat \<times> jsstring) list"
type_synonym mstate = "jsstring \<times> captures"

definition run :: "cls \<Rightarrow> jsstring \<Rightarrow> nat" where
  "run c s = length (takeWhile (classMatch c) s)"

primrec matches :: "re \<Rightarrow> mstate \<Rightarrow> mstate list" where
  "matches Eps st = [st]"
| "matches (Sym c) st =
     (case fst st of
        [] \<Rightarrow> []
      | x # xs \<Rightarrow> if classMatch c x then [(xs, snd st)] else [])"
| "matches (Seq a b) st = concat (map (matches b) (matches a st))"
| "matches (Alt a b) st = matches a st @ matches b st"
| "matches (Star c) st = map (\<lambda>n. (drop n (fst st), snd st)) (rev [0..<Suc (run c (fst st))])"
| "matches (Plus c) st = map (\<lambda>n. (drop n (fst st), snd st)) (rev [1..<Suc (run c (fst st))])"
| "matches (LazyStar c) st = map (\<lambda>n. (drop n (fst st), snd st)) [0..<Suc (run c (fst st))]"
| "matches (LazyPlus c) st = map (\<lambda>n. (drop n (fst st), snd st)) [1..<Suc (run c (fst st))]"
| "matches (Group i r) st =
     map (\<lambda>st'. (fst st', (i, take (length (fst st) - length (fst st')) (fst st)) # snd st'))
       (matches r st)"
| "matches (Lookahead r) st =
     (case matches r st of [] \<Rightarrow> [] | st' # _ \<Rightarrow> [(fst st, snd st')])"
| "matches Eos st = (if fst st = [] then [st] else [])"

definition matchAt :: "re \<Rightarrow> jsstring \<Rightarrow> mstate option" where
  "matchAt r s = (case matches r (s, []) of [] \<Rightarrow> None | st # _ \<Rightarrow> Some st)"

text \<open>
  The leftmost match: \<open>search r s k\<close> tries every start position of \<open>s\<close> in turn, \<open>k\<close>
  being the index of the head of \<open>s\<close> in the whole input.
\<close>

fun search :: "re \<Rightarrow> jsstring \<Rightarrow> nat \<Rightarrow> (nat \<times> mstate) option" where
  "search r [] k = (case matchAt r [] of None \<Rightarrow> None | Some st \<Rightarrow> Some (k, st))"
| "search r (c # cs) k =
     (case matchAt r (c # cs) of None \<Rightarrow> search r cs (Suc k) | Some st \<Rightarrow> Some (k, st))"

text \<open>The match object: \<open>match.index\<close>, \<open>match[0]\<close> and the capture groups.\<close>

record regmatch =
  match_index :: nat
  match_whole :: jsstring
  match_groups :: captures

definition mkMatch :: "jsstring \<Rightarrow> nat \<times> mstate \<Rightarrow> regmatch" where
  "mkMatch s found =
     (case found of (k, rest, caps) \<Rightarrow>
        \<lparr>match_index = k,
         match_whole = take (length s - k - length rest) (drop k s),
         match_groups = caps\<rparr>)"

text \<open>
  \<open>match[i]\<close>. In every pattern of the program the groups read after a match lie on
  the only path through the pattern, so they have always taken part in the match.
\<close>

definition capture :: "regmatch \<Rightarrow> nat \<Rightarrow> jsstring" where
  "capture m i = (case map_of (match_groups m) i of None \<Rightarrow> [] | Some t \<Rightarrow> t)"

text \<open>\<open>s.match(r)\<close> for a pattern without the \<open>g\<close> flag, and \<open>r.test(s)\<close>.\<close>

definition exec :: "re \<Rightarrow> jsstring \<Rightarrow> regmatch option" where
  "exec r s = map_option (mkMatch s) (search r s 0)"

definition test :: "re \<Rightarrow> jsstring \<Rightarrow> bool" where
  "test r s \<longleftrightarrow> exec r s \<noteq> None"

text \<open>\<open>s.replace(r, '')\<close> for a pattern without the \<open>g\<close> flag: the first match is cut out.\<close>

definition replace_empty :: "jsstring \<Rightarrow> re \<Rightarrow> jsstring" where
  "replace_empty s r =
     (case exec r s of
        None \<Rightarrow> s
      | Some m \<Rightarrow> take (match_index m) s @ drop (match_index m + length (match_whole m)) s)"

lemma search_index: "search r s k = Some (j, st) \<Longrightarrow> k \<le> j"
  by (induction r s k rule: search.induct) (auto split: option.splits)

text \<open>
  \<open>[...s.matchAll(r)]\<close> for a pattern with the \<open>g\<close> flag: the matches from \<open>lastIndex\<close>
  on. After each match \<open>lastIndex\<close> is the end of the match, and one more after an empty
  match.
\<close>

function matchAll_from :: "re \<Rightarrow> jsstring \<Rightarrow> nat \<Rightarrow> regmatch list" where
  "matchAll_from r s lastIndex =
     (if lastIndex > length s then []
      else
        (case search r (drop lastIndex s) lastIndex of
           None \<Rightarrow> []
         | Some found \<Rightarrow>
             (let m = mkMatch s found;
                  e = match_index m + length (match_whole m);
                  nextIndex = (if match_whole m = [] then e + 1 else e)
              in m # matchAll_from r s nextIndex)))"
  by pat_completeness auto
termination
proof (relation "measure (\<lambda>(r, s, lastIndex). length s + 1 - lastIndex)", goal_cases)
  case 1
  show ?case by simp
next
  case (2 r s lastIndex found m e nextIndex)
  obtain k st where found: "found = (k, st)" by (cases found)
  with 2 have "lastIndex \<le> k" using search_index by metis
  moreover have "match_index m = k" using 2 found by (simp add: mkMatch_def split: prod.splits)
  ultimately have "lastIndex < nextIndex" using 2(4,5) by (cases "match_whole m") simp_all
  with 2(1) show ?case by auto
qed

definition matchAll :: "re \<Rightarrow> jsstring \<Rightarrow> regmatch list" where
  "matchAll r s = matchAll_from r s 0"

section \<open>Field Extractor\<close>

text \<open>
  \<open>extractField\<close> builds its pattern by splicing the field name and the optional stop
  marker, unescaped, into the source of a regular expression:
  \<open>NAME:\s*(.+?)\s*(?=STOP|$)\<close> with flags \<open>is\<close>, or \<open>NAME:\s*(.+?)\s*$\<close> when the stop marker
  is absent or the empty string (\<open>stopAt ? ... : '$'\<close>). The embedding reads the characters
  of the name and of the marker as literals. That is what the regular expression does
  for a \<open>plainName\<close>: ASCII characters, none of them one of the syntax characters
  \<open>\ ^ $ . * + ? ( ) [ ] { } |\<close>. The names the program passes (\<open>EXCERPT\<close>, \<open>CATEGORY:\<close> and so
  on) are letters and a colon; for a name that is not plain the embedding says nothing
  about the code.
\<close>

definition syntaxChars :: "jschar list" where
  "syntaxChars = [92, 94, 36, 46, 42, 43, 63, 40, 41, 91, 93, 123, 125, 124]"

definition plainName :: "jsstring \<Rightarrow> bool" where
  "plainName s = list_all (\<lambda>c. 0 \<le> c \<and> c < 128 \<and> c \<notin> set syntaxChars) s"

definition stopPattern :: "jsstring option \<Rightarrow> re" where
  "stopPattern stopAt =
     (case stopAt of
        Some stop \<Rightarrow> if stop = [] then Eos else Lookahead (Alt (literalI stop) Eos)
      | None \<Rightarrow> Eos)"

definition fieldPattern :: "jsstring \<Rightarrow> jsstring option \<Rightarrow> re" where
  "fieldPattern fieldName stopAt =
     seqs [literalI fieldName, Sym (LitI 58), Star Space, Group 1 (LazyPlus Any), Star Space,
           stopPattern stopAt]"

definition extractField :: "jsstring \<Rightarrow> jsstring \<Rightarrow> jsstring option \<Rightarrow> jsstring option" where
  "extractField block fieldName stopAt =
     (case exec (fieldPattern fieldName stopAt) block of
        None \<Rightarrow> None
      | Some m \<Rightarrow> Some (stripQuotes (capture m 1)))"

section \<open>Completeness Detector\<close>

text \<open>The pattern \<open>/FIX:\s*(.+?)$/is\<close>.\<close>

definition fixPattern :: re where
  "fixPattern = seqs [literalI (str ''FIX:''), Star Space, Group 1 (LazyPlus Any), Eos]"

text \<open>The loop over \<open>quoteChars\<close> in \<open>isBlockComplete\<close> and the statement after it.\<close>

fun isBlockComplete_loop :: "jschar list \<Rightarrow> jsstring \<Rightarrow> bool" where
  "isBlockComplete_loop [] fixValue = (length fixValue > 0)"
| "isBlockComplete_loop (quote # rest) fixValue =
     (if startsWith fixValue [quote]
      then endsWith fixValue [quote] \<and> length fixValue > 1
      else isBlockComplete_loop rest fixValue)"

definition isBlockComplete :: "jsstring \<Rightarrow> bool" where
  "isBlockComplete block =
     (if \<not> test (literalI (str ''EXCERPT:'')) block \<or>
         \<not> test (literalI (str ''CATEGORY:'')) block \<or>
         \<not> test (literalI (str ''SEVERITY:'')) block \<or>
         \<not> test (literalI (str ''PROBLEM:'')) block \<or>
         \<not> test (literalI (str ''FIX:'')) block
      then False
      else
        (case exec fixPattern block of
           None \<Rightarrow> False
         | Some fixMatch \<Rightarrow>
             (let fixValue = trim (capture fixMatch 1)
              in isBlockComplete_loop quoteChars fixValue)))"

section \<open>Record Assembler\<close>

record ParsedSuggestion =
  comment :: jsstring
  target_excerpt :: jsstring
  category :: jsstring
  severity :: jsstring
  explanation :: jsstring
  rewrite :: jsstring

text \<open>
  \<open>toLowerCase\<close> is only ever compared with the ASCII words \<open>high\<close>, \<open>moderate\<close>, \<open>low\<close>,
  \<open>consistency\<close>, \<open>structure\<close> and \<open>word_choice\<close>. No character outside ASCII has a
  lower case made of the letters of these words, so for these comparisons it is the
  ASCII mapping.
\<close>

definition toLowerCase :: "jsstring \<Rightarrow> jsstring" where
  "toLowerCase s = map lowerASCII s"

text \<open>\<open>!x\<close> for a value that is a string or \<open>null\<close>: true for \<open>null\<close> and for the empty string.\<close>

definition falsy :: "jsstring option \<Rightarrow> bool" where
  "falsy x \<longleftrightarrow> x = None \<or> x = Some []"

text \<open>The pattern \<open>/---\s*$/\<close>.\<close>

definition dashTail :: re where
  "dashTail = seqs [literal (str ''---''), Star Space, Eos]"

text \<open>
  \<open>parseIssueBlock\<close>. Nothing in its body throws on a string, so the \<open>catch\<close> branch is
  never taken; the logging calls are left out.
\<close>

definition parseIssueBlock :: "jsstring \<Rightarrow> ParsedSuggestion option" where
  "parseIssueBlock block =
     (let excerpt = extractField block (str ''EXCERPT'') (Some (str ''CATEGORY:''));
          category = extractField block (str ''CATEGORY'') (Some (str ''SEVERITY:''));
          severityStr = extractField block (str ''SEVERITY'') (Some (str ''PROBLEM:''));
          problem = extractField block (str ''PROBLEM'') (Some (str ''FIX:''));
          fix = extractField block (str ''FIX'') None
      in if falsy excerpt \<or> falsy category \<or> falsy severityStr \<or> falsy problem then None
         else
           (let severity = toLowerCase (the severityStr)
            in if severity \<noteq> str ''high'' \<and> severity \<noteq> str ''moderate'' \<and>
                  severity \<noteq> str ''low''
               then None
               else
                 (let cleanFix = (if \<not> falsy fix then trim (replace_empty (the fix) dashTail)
                                  else [])
                  in Some \<lparr>comment = the problem,
                           target_excerpt = the excerpt,
                           category = the category,
                           severity = severity,
                           explanation = the problem,
                           rewrite = cleanFix\<rparr>)))"

section \<open>Block Segmenter and Incremental Stream Parser\<close>

text \<open>The pattern \<open>/---\s*\nISSUE\s+(\d+)\s*\n(.*?)(?=---\s*\n|$)/gis\<close>.\<close>

definition issuePattern :: re where
  "issuePattern =
     seqs [literalI (str ''---''), Star Space, Sym (LitI newline), literalI (str ''ISSUE''),
           Plus Space, Group 1 (Plus Digit), Star Space, Sym (LitI newline),
           Group 2 (LazyStar Any),
           Lookahead (Alt (seqs [literalI (str ''---''), Star Space, Sym (LitI newline)]) Eos)]"



text \<open>
  The \<open>for (let i = 0; i < matches.length; i++)\<close> loop of \<open>parsePartialBuffer\<close>, over the
  matches from index \<open>i\<close> on: the head of the list is \<open>matches[i]\<close>, and
  \<open>i < matches.length - 1\<close> says that the rest is not empty.
\<close>

fun parsePartialBuffer_loop ::
  "regmatch list \<Rightarrow> ParsedSuggestion list \<Rightarrow> nat \<Rightarrow> ParsedSuggestion list \<times> nat" where
  "parsePartialBuffer_loop [] suggestions lastCompleteIndex = (suggestions, lastCompleteIndex)"
| "parsePartialBuffer_loop (m # rest) suggestions lastCompleteIndex =
     (let block = capture m 2;
          isFollowedByAnother = (rest \<noteq> [])
      in if \<not> isFollowedByAnother \<and> \<not> isBlockComplete block
         then (suggestions, lastCompleteIndex)
         else
           (case parseIssueBlock block of
              Some suggestion \<Rightarrow>
                parsePartialBuffer_loop rest (suggestions @ [suggestion])
                  (match_index m + length (match_whole m))
            | None \<Rightarrow> parsePartialBuffer_loop rest suggestions lastCompleteIndex))"

text \<open>The result \<open>{ parsed, remainder }\<close> as a pair.\<close>

definition parsePartialBuffer :: "jsstring \<Rightarrow> ParsedSuggestion list \<times> jsstring" where
  "parsePartialBuffer buffer =
     (case parsePartialBuffer_loop (matchAll issuePattern buffer) [] 0 of
        (suggestions, lastCompleteIndex) \<Rightarrow>
          (suggestions, slice buffer (int lastCompleteIndex) (int (length buffer))))"



section \<open>Assignment Policy\<close>

definition isQuickFixable :: "ParsedSuggestion \<Rightarrow> bool" where
  "isQuickFixable suggestion =
     (if rewrite suggestion = [] \<or> trim (rewrite suggestion) = [] then False
      else if includes_str (rewrite suggestion) (str '' or '') then False
      else if length (rewrite suggestion) > 100 then False
      else if toLowerCase (category suggestion) \<in>
                set [str ''consistency'', str ''structure'', str ''word_choice'']
      then False
      else True)"

text \<open>
  Positions and ranges of the editor: a position is a line and a character, a range a
  start and an end position.
\<close>

type_synonym position = "nat \<times> nat"
type_synonym range = "position \<times> position"

datatype DiagnosticSeverity = Error | Warning | Information | Hint

record Diagnostic =
  diag_range :: range
  diag_message :: jsstring
  diag_severity :: DiagnosticSeverity
  diag_source :: jsstring
  diag_code :: "nat option"

text \<open>
  What the extension host supplies to \<open>addSuggestionAsDiagnostic\<close>: the document's
  \<open>positionAt\<close>, \<open>Range.intersection\<close> and the \<open>framerd.dictionary\<close> setting.
  \<open>extractMisspelledWord\<close> (dictionary-utils) only decides whether a spelling
  suggestion is suppressed before it is located; it is a parameter here, so everything
  proved below holds whatever it returns.
\<close>

record host =
  positionAt :: "int \<Rightarrow> position"
  intersection :: "range \<Rightarrow> range \<Rightarrow> range option"
  dictionary :: "jsstring list"
  extractMisspelledWord :: "jsstring \<Rightarrow> jsstring option"

text \<open>
  The module-level state of one review: \<open>usedRanges\<close>, \<open>diagnosticCounter\<close>,
  \<open>suggestionMap\<close> (keyed by the counter value the identifier string prints) and the
  diagnostics of the document. \<open>newSession\<close> is the state after the reset at the start of a
  review.
\<close>

record session =
  usedRanges :: "range list"
  diagnosticCounter :: nat
  suggestionMap :: "nat \<rightharpoonup> ParsedSuggestion"
  diagnostics :: "Diagnostic list"

definition newSession :: session where
  "newSession = \<lparr>usedRanges = [], diagnosticCounter = 0, suggestionMap = Map.empty,
                  diagnostics = []\<rparr>"

text \<open>
  The last statements of \<open>addSuggestionAsDiagnostic\<close>, ``create diagnostic without quick
  fix'': reached with severity \<open>Hint\<close> on every path that does not return earlier.
\<close>

definition withoutQuickFix :: "range \<Rightarrow> ParsedSuggestion \<Rightarrow> session \<Rightarrow> session" where
  "withoutQuickFix range' suggestion st =
     st\<lparr>diagnostics := diagnostics st @
          [\<lparr>diag_range = range', diag_message = comment suggestion, diag_severity = Hint,
            diag_source = str ''FramerD'', diag_code = None\<rparr>]\<rparr>"

definition addSuggestionAsDiagnostic ::
  "host \<Rightarrow> ParsedSuggestion \<Rightarrow> jsstring \<Rightarrow> session \<Rightarrow> session" where
  "addSuggestionAsDiagnostic h suggestion text st =
     (if length (dictionary h) > 0 \<and> category suggestion = str ''spelling'' \<and>
         (case extractMisspelledWord h (comment suggestion) of
            None \<Rightarrow> False
          | Some word \<Rightarrow> word \<noteq> [] \<and> word \<in> set (dictionary h))
      then st
      else if target_excerpt suggestion \<noteq> [] then
        (let index = indexOf text (target_excerpt suggestion) 0 in
         if index \<noteq> - 1 then
           (let startPos = positionAt h index;
                endPos = positionAt h (index + int (length (target_excerpt suggestion)));
                range' = (startPos, endPos);
                overlaps = list_ex (\<lambda>usedRange. intersection h usedRange range' \<noteq> None)
                             (usedRanges st);
                canQuickFix = (isQuickFixable suggestion \<and> \<not> overlaps)
            in if \<not> canQuickFix then withoutQuickFix range' suggestion st
               else
                 (let severity' =
                        (if severity suggestion = str ''high'' then Error
                         else if severity suggestion = str ''moderate'' then Warning
                         else Information);
                      id' = diagnosticCounter st + 1
                  in st\<lparr>usedRanges := usedRanges st @ [range'],
                        diagnosticCounter := id',
                        suggestionMap := (suggestionMap st)(id' \<mapsto>
                          \<lparr>comment = comment suggestion,
                           target_excerpt = target_excerpt suggestion,
                           category = category suggestion,
                           severity = severity suggestion,
                           explanation = explanation suggestion,
                           rewrite = rewrite suggestion\<rparr>),
                        diagnostics := diagnostics st @
                          [\<lparr>diag_range = range', diag_message = comment suggestion,
                            diag_severity = severity', diag_source = str ''FramerD'',
                            diag_code = Some id'\<rparr>]\<rparr>))
         else withoutQuickFix ((0, 0), (0, 0)) suggestion st)
      else withoutQuickFix ((0, 0), (0, 0)) suggestion st)"

text \<open>The \<open>onSuggestion\<close> callback applied to the records of a review, in arrival order.\<close>

fun review :: "host \<Rightarrow> jsstring \<Rightarrow> ParsedSuggestion list \<Rightarrow> session \<Rightarrow> session" where
  "review h text [] st = st"
| "review h text (suggestion # rest) st =
     review h text rest (addSuggestionAsDiagnostic h suggestion text st)"

section \<open>Auxiliary notions\<close>

text \<open>
  The end of a match, \<open>match.index + match[0].length\<close>; a match moved \<open>n\<close> places to the
  right; and a list of matches on which the loop of \<open>parsePartialBuffer\<close> emits nothing
  and leaves \<open>lastCompleteIndex\<close> alone.
\<close>

definition match_end :: "regmatch \<Rightarrow> nat" where
  "match_end m = match_index m + length (match_whole m)"

definition shiftMatch :: "nat \<Rightarrow> regmatch \<Rightarrow> regmatch" where
  "shiftMatch n m = m\<lparr>match_index := match_index m + n\<rparr>"

definition quiet :: "regmatch list \<Rightarrow> bool" where
  "quiet ms \<longleftrightarrow> (\<forall>acc lci. parsePartialBuffer_loop ms acc lci = (acc, lci))"

text \<open>
  The Block Segmenter's output: the body of every block the record-marker pattern finds.
\<close>

definition blocks :: "jsstring \<Rightarrow> jsstring list" where
  "blocks buffer = map (\<lambda>m. capture m 2) (matchAll issuePattern buffer)"

text \<open>
  A block malformed at the field level: one of the four required fields before \<open>FIX\<close> is
  absent (its name followed by a colon occurs nowhere, whatever the case), or the
  \<open>SEVERITY\<close> value is not one of the three tokens, whatever the case.
\<close>

definition fieldMissing :: "jsstring \<Rightarrow> jsstring \<Rightarrow> bool" where
  "fieldMissing block fieldName \<longleftrightarrow> \<not> test (literalI (fieldName @ str '':'')) block"

definition badSeverity :: "jsstring \<Rightarrow> bool" where
  "badSeverity block =
     (case extractField block (str ''SEVERITY'') (Some (str ''PROBLEM:'')) of
        None \<Rightarrow> False
      | Some v \<Rightarrow> toLowerCase v \<notin> set [str ''high'', str ''moderate'', str ''low''])"

definition malformed :: "jsstring \<Rightarrow> bool" where
  "malformed block \<longleftrightarrow>
     fieldMissing block (str ''EXCERPT'') \<or> fieldMissing block (str ''CATEGORY'') \<or>
     fieldMissing block (str ''SEVERITY'') \<or> fieldMissing block (str ''PROBLEM'') \<or>
     badSeverity block"

text \<open>
  The blocks the loop of \<open>parsePartialBuffer\<close> hands to the Record Assembler: all of
  them, save a last one that the Completeness Detector rejects.
\<close>

definition finalBlocks :: "jsstring list \<Rightarrow> jsstring list" where
  "finalBlocks bs = (if bs \<noteq> [] \<and> \<not> isBlockComplete (last bs) then butlast bs else bs)"

text \<open>
  Notions for the Assignment Policy: no committed range intersects a later one; the
  ranges of the diagnostics that carry an identifier; a suggestion suppressed by the
  dictionary; the range of a suggestion whose excerpt is found in the document; a range
  that intersects a committed one; and the state after a suggestion is committed as
  auto-fixable.
\<close>

definition committedDisjoint :: "host \<Rightarrow> range list \<Rightarrow> bool" where
  "committedDisjoint h rs \<longleftrightarrow>
     (\<forall>i j. i < j \<and> j < length rs \<longrightarrow> intersection h (rs ! i) (rs ! j) = None)"

definition fixableRanges :: "session \<Rightarrow> range list" where
  "fixableRanges st = map diag_range (filter (\<lambda>d. diag_code d \<noteq> None) (diagnostics st))"

definition suppressed :: "host \<Rightarrow> ParsedSuggestion \<Rightarrow> bool" where
  "suppressed h suggestion \<longleftrightarrow>
     length (dictionary h) > 0 \<and> category suggestion = str ''spelling'' \<and>
     (case extractMisspelledWord h (comment suggestion) of
        None \<Rightarrow> False
      | Some word \<Rightarrow> word \<noteq> [] \<and> word \<in> set (dictionary h))"

definition candidateRange :: "host \<Rightarrow> jsstring \<Rightarrow> ParsedSuggestion \<Rightarrow> range option" where
  "candidateRange h text suggestion =
     (let index = indexOf text (target_excerpt suggestion) 0
      in if target_excerpt suggestion \<noteq> [] \<and> index \<noteq> - 1
         then Some (positionAt h index,
                    positionAt h (index + int (length (target_excerpt suggestion))))
         else None)"

definition overlapsCommitted :: "host \<Rightarrow> range \<Rightarrow> session \<Rightarrow> bool" where
  "overlapsCommitted h r st \<longleftrightarrow>
     list_ex (\<lambda>usedRange. intersection h usedRange r \<noteq> None) (usedRanges st)"

definition commit :: "range \<Rightarrow> ParsedSuggestion \<Rightarrow> session \<Rightarrow> session" where
  "commit r suggestion st =
     st\<lparr>usedRanges := usedRanges st @ [r],
        diagnosticCounter := diagnosticCounter st + 1,
        suggestionMap := (suggestionMap st)(diagnosticCounter st + 1 \<mapsto>
          \<lparr>comment = comment suggestion, target_excerpt = target_excerpt suggestion,
           category = category suggestion, severity = severity suggestion,
           explanation = explanation suggestion, rewrite = rewrite suggestion\<rparr>),
        diagnostics := diagnostics st @
          [\<lparr>diag_range = r, diag_message = comment suggestion,
            diag_severity =
              (if severity suggestion = str ''high'' then Error
               else if severity suggestion = str ''moderate'' then Warning
               else Information),
            diag_source = str ''FramerD'',
            diag_code = Some (diagnosticCounter st + 1)\<rparr>]\<rparr>"

text \<open>
  An editor for examples: a one-line document, with \<open>Range.intersection\<close> as the VS Code
  API describes it (the range from the greater start to the smaller end, undefined when
  the start lies after the end), an empty dictionary, and two suggestions.
\<close>

definition posLE :: "position \<Rightarrow> position \<Rightarrow> bool" where
  "posLE p q \<longleftrightarrow> fst p < fst q \<or> (fst p = fst q \<and> snd p \<le> snd q)"

definition rangeIntersection :: "range \<Rightarrow> range \<Rightarrow> range option" where
  "rangeIntersection a b =
     (let start = (if posLE (fst a) (fst b) then fst b else fst a);
          end' = (if posLE (snd a) (snd b) then snd a else snd b)
      in if posLE start end' then Some (start, end') else None)"

definition oneLineEditor :: host where
  "oneLineEditor =
     \<lparr>positionAt = (\<lambda>offset. (0, nat offset)),
      intersection = rangeIntersection,
      dictionary = [],
      extractMisspelledWord = (\<lambda>comment. None)\<rparr>"

definition catSuggestion :: ParsedSuggestion where
  "catSuggestion =
     \<lparr>comment = str ''Missing article'', target_excerpt = str ''The cat sat on mat'',
      category = str ''grammar'', severity = str ''high'',
      explanation = str ''Missing article'', rewrite = str ''The cat sat on the mat''\<rparr>"

definition satSuggestion :: ParsedSuggestion where
  "satSuggestion =
     \<lparr>comment = str ''Tense'', target_excerpt = str ''cat sat'',
      category = str ''grammar'', severity = str ''low'',
      explanation = str ''Tense'', rewrite = str ''cat sits''\<rparr>"

text \<open>
  \<open>iprefix p s\<close>: the string \<open>s\<close> starts with \<open>p\<close>, up to ASCII case. \<open>fixTail\<close> is what
  follows the literal in the pattern of the Completeness Detector.
\<close>

definition iprefix :: "jsstring \<Rightarrow> jsstring \<Rightarrow> bool" where
  "iprefix p s \<longleftrightarrow> length p \<le> length s \<and> map upperASCII (take (length p) s) = map upperASCII p"

definition fixTail :: re where
  "fixTail = seqs [Star Space, Group 1 (LazyPlus Any), Eos]"

text \<open>
  The left and right typographic quotation marks, double (U+201C, U+201D) and single
  (U+2018, U+2019). None of them is in \<open>quoteChars\<close>.
\<close>

definition typographicQuotes :: "jschar list" where
  "typographicQuotes = [8220, 8221, 8216, 8217]"

text \<open>What follows the field name and the colon in the pattern of \<open>extractField\<close>.\<close>

definition fieldTail :: "jsstring option \<Rightarrow> re" where
  "fieldTail stopAt = seqs [Star Space, Group 1 (LazyPlus Any), Star Space, stopPattern stopAt]"

section \<open>Properties of the Quote Normalizer\<close>

lemma isSpace_quote [simp]: "\<not> isSpace dquote" "\<not> isSpace squote"
  by (simp_all add: isSpace_def dquote_def squote_def)

lemma trim_bracketed:
  assumes "\<not> isSpace q"
  shows "trim (q # inner @ [q]) = q # inner @ [q]"
  using assms by (simp add: trim_def trimStart_def trimEnd_def)

lemma slice_bracketed: "slice (q # inner @ [q]) 1 (- 1) = inner"
  by (simp add: slice_def Let_def)

lemma stripQuotes_loop_hit:
  assumes "q \<in> set qs"
  shows "stripQuotes_loop qs (q # inner @ [q]) = trim inner"
  using assms
proof (induction qs)
  case Nil
  then show ?case by simp
next
  case (Cons a qs)
  show ?case
  proof (cases "startsWith (q # inner @ [q]) [a] \<and> endsWith (q # inner @ [q]) [a]")
    case True
    then show ?thesis by (simp add: slice_bracketed)
  next
    case False
    then have "a \<noteq> q" by (auto simp: startsWith_def endsWith_def)
    with Cons False show ?thesis by auto
  qed
qed

lemma stripQuotes_loop_miss:
  assumes "\<forall>q \<in> set qs. \<not> (startsWith text [q] \<and> endsWith text [q])"
  shows "stripQuotes_loop qs text = text"
  using assms by (induction qs) auto

text \<open>
  C8. Quote stripping is single-layer: the triple-double-quoted \<open>a\<close> loses one outer pair
  and keeps the two inner pairs; and every value that begins and ends with the same
  recognised quote character loses exactly that outermost pair, the inside being
  returned re-trimmed with every interior character, quotes included, in place.
\<close>

theorem stripQuotes_single_layer:
  "stripQuotes (str ''\"\"\"a\"\"\"'') = str ''\"\"a\"\"'' \<and>
   (\<forall>q \<in> set quoteChars. \<forall>inner. stripQuotes (q # inner @ [q]) = trim inner)"
proof
  show "stripQuotes (str ''\"\"\"a\"\"\"'') = str ''\"\"a\"\"''"
    by (simp add: str_def stripQuotes_def quoteChars_def trim_def trimStart_def trimEnd_def
        isSpace_def dquote_def squote_def startsWith_def endsWith_def slice_def)
next
  show "\<forall>q \<in> set quoteChars. \<forall>inner. stripQuotes (q # inner @ [q]) = trim inner"
  proof (intro ballI allI)
    fix q inner
    assume q: "q \<in> set quoteChars"
    then have "\<not> isSpace q" by (auto simp: quoteChars_def)
    then show "stripQuotes (q # inner @ [q]) = trim inner"
      using q by (simp add: stripQuotes_def trim_bracketed stripQuotes_loop_hit)
  qed
qed

theorem stripQuotes_single_layer_witness:
  "dquote \<in> set quoteChars \<and>
   stripQuotes (dquote # str '' say \"hi\" '' @ [dquote]) = str ''say \"hi\"''"
proof -
  have q: "dquote \<in> set quoteChars" by (simp add: quoteChars_def)
  have "stripQuotes (dquote # str '' say \"hi\" '' @ [dquote]) = trim (str '' say \"hi\" '')"
    using stripQuotes_single_layer q by blast
  moreover have "trim (str '' say \"hi\" '') = str ''say \"hi\"''"
    by (simp add: str_def trim_def trimStart_def trimEnd_def isSpace_def)
  ultimately show ?thesis using q by simp
qed

text \<open>
  C7. A value bracketed by a typographic left mark and its right counterpart is not
  stripped: the loop compares both ends with one and the same character, and the
  list holds straight quotes only. The value U+201C a U+201D comes back unchanged.
\<close>

theorem stripQuotes_typographic_pair_kept:
  "stripQuotes [8220, 97, 8221] = [8220, 97, 8221] \<and>
   stripQuotes [8216, 97, 8217] = [8216, 97, 8217]"
  by (simp add: stripQuotes_def quoteChars_def trim_def trimStart_def trimEnd_def
      isSpace_def dquote_def squote_def startsWith_def endsWith_def)

section \<open>Properties of the Excerpt Locator\<close>

lemma substring_from_zero:
  assumes "0 \<le> m" and "m \<le> int (length s)"
  shows "substring s 0 m = take (nat m) s"
proof -
  have "max 0 (min 0 (int (length s))) = (0::int)" by simp
  moreover have "max 0 (min m (int (length s))) = m" using assms by simp
  ultimately show ?thesis using assms by (simp add: substring_def)
qed

lemma prefix_nonempty:
  assumes "20 \<le> length excerpt"
  shows "substring excerpt 0 (min 50 (int (length excerpt) div 4)) \<noteq> []"
proof -
  define m where "m = min 50 (int (length excerpt) div 4)"
  have m: "0 < m" "m \<le> int (length excerpt)"
    using assms by (auto simp: m_def)
  then have "substring excerpt 0 m = take (nat m) excerpt"
    by (simp add: substring_from_zero)
  moreover have "take (nat m) excerpt \<noteq> []" using m assms by auto
  ultimately show ?thesis by (simp add: m_def)
qed

text \<open>
  C6. Fuzzy match tolerance: for the document ``She was trying not to squint too much in
  the light.'' and the excerpt ``trying not squint too much'' the locator returns the span
  starting at 8 of length 29; the document's substring under that span is ``trying not to
  squint too much'', which contains both ``trying not'' and ``squint too much''.
\<close>

theorem findExcerptPartialMatch_squint:
  "findExcerptPartialMatch (str ''She was trying not to squint too much in the light.'')
     (str ''trying not squint too much'') = Some \<lparr>span_index = 8, span_length = 29\<rparr> \<and>
   substring (str ''She was trying not to squint too much in the light.'') 8 (8 + 29) =
     str ''trying not to squint too much'' \<and>
   includes_str (str ''trying not to squint too much'') (str ''trying not'') \<and>
   includes_str (str ''trying not to squint too much'') (str ''squint too much'')"
proof (intro conjI)
  show "findExcerptPartialMatch (str ''She was trying not to squint too much in the light.'')
     (str ''trying not squint too much'') = Some \<lparr>span_index = 8, span_length = 29\<rparr>"
    by code_simp
  show "substring (str ''She was trying not to squint too much in the light.'') 8 (8 + 29) =
     str ''trying not to squint too much''"
    by code_simp
  show "includes_str (str ''trying not to squint too much'') (str ''trying not'')"
    by code_simp
  show "includes_str (str ''trying not to squint too much'') (str ''squint too much'')"
    by code_simp
qed

text \<open>
  C10. The returned length is not always positive. The window starts 50 characters
  before the expected suffix position, which for an excerpt of at most 50 characters
  reaches back before the prefix occurrence; a copy of the suffix standing there is
  accepted. For the document ``Over the lazy dog. The quick brown fox.'' and the excerpt
  ``The quick brown fox jumps over the lazy dog.'' the prefix is found at 19, the suffix
  at 7, and the span returned has length \<open>7 + 11 - 19 = -1\<close>.
\<close>

theorem findExcerptPartialMatch_negative_length:
  "findExcerptPartialMatch (str ''Over the lazy dog. The quick brown fox.'')
     (str ''The quick brown fox jumps over the lazy dog.'') =
   Some \<lparr>span_index = 19, span_length = - 1\<rparr>"
  by code_simp

declare matchAll_from.simps [simp del]

section \<open>Properties of the matcher\<close>

subsection \<open>The matcher only moves forward\<close>

lemma matches_length:
  "(s', c') \<in> set (matches r (s, c)) \<Longrightarrow> length s' \<le> length s"
proof (induction r arbitrary: s c s' c')
  case (Sym x)
  then show ?case by (auto split: list.splits if_splits)
next
  case (Seq a b)
  then obtain s1 c1 where "(s1, c1) \<in> set (matches a (s, c))" "(s', c') \<in> set (matches b (s1, c1))"
    by auto
  with Seq.IH show ?case using le_trans by blast
next
  case (Lookahead r)
  then show ?case by (auto split: list.splits)
next
  case (Group i r)
  then show ?case by auto
qed (auto split: if_splits)

lemma matches_Sym_shorter:
  "(s', c') \<in> set (matches (Sym x) (s, c)) \<Longrightarrow> length s' < length s"
  by (auto split: list.splits if_splits)

lemma matches_Seq_shorter:
  assumes "\<And>s c s' c'. (s', c') \<in> set (matches a (s, c)) \<Longrightarrow> length s' < length s"
    and "(s', c') \<in> set (matches (Seq a b) (s, c))"
  shows "length s' < length s"
proof -
  from assms(2) obtain s1 c1 where "(s1, c1) \<in> set (matches a (s, c))" "(s', c') \<in> set (matches b (s1, c1))"
    by auto
  then show ?thesis using assms(1) matches_length by (meson le_less_trans)
qed

lemma issuePattern_shorter:
  "(s', c') \<in> set (matches issuePattern (s, c)) \<Longrightarrow> length s' < length s"
  unfolding issuePattern_def literalI_def str_def
  apply (simp del: matches.simps)
  apply (erule matches_Seq_shorter[rotated])
  apply (erule matches_Seq_shorter[rotated])
  apply (erule matches_Sym_shorter)
  done

subsection \<open>Matches of a suffix\<close>

lemma search_upper: "search r s k = Some (j, st) \<Longrightarrow> j \<le> k + length s"
  by (induction r s k rule: search.induct) (auto split: option.splits)

lemma search_shift:
  "search r s (k + n) = map_option (\<lambda>(j, st). (j + n, st)) (search r s k)"
  by (induction r s k rule: search.induct) (auto split: option.splits)

lemma search_rest_length:
  "search r s k = Some (j, rest, caps) \<Longrightarrow> length rest \<le> k + length s - j"
proof (induction r s k rule: search.induct)
  case (1 r k)
  then have "(rest, caps) \<in> set (matches r ([], []))"
    by (auto simp: matchAt_def split: option.splits list.splits)
  from matches_length[OF this] show ?case by simp
next
  case (2 r c cs k)
  show ?case
  proof (cases "matchAt r (c # cs)")
    case None
    with 2 show ?thesis by auto
  next
    case (Some st)
    with 2 have "j = k" "st = (rest, caps)" by auto
    with Some have "(rest, caps) \<in> set (matches r (c # cs, []))"
      by (auto simp: matchAt_def split: list.splits)
    from matches_length[OF this] \<open>j = k\<close> show ?thesis by simp
  qed
qed

lemma mkMatch_shift:
  assumes "n \<le> length s"
  shows "mkMatch s (j + n, rest, caps) = shiftMatch n (mkMatch (drop n s) (j, rest, caps))"
  using assms by (simp add: mkMatch_def shiftMatch_def add.commute)

lemma matchAll_from_shift:
  "n \<le> i \<Longrightarrow> n \<le> length s \<Longrightarrow>
   matchAll_from r s i = map (shiftMatch n) (matchAll_from r (drop n s) (i - n))"
proof (induction r s i rule: matchAll_from.induct)
  case (1 r s lastIndex)
  show ?case
  proof (cases "lastIndex > length s")
    case True
    then have "lastIndex - n > length (drop n s)" using 1(2,3) by simp
    with True show ?thesis
      by (simp add: matchAll_from.simps[of r s lastIndex]
          matchAll_from.simps[of r "drop n s" "lastIndex - n"])
  next
    case False
    have dr: "drop (lastIndex - n) (drop n s) = drop lastIndex s" using 1(2) by simp
    show ?thesis
    proof (cases "search r (drop lastIndex s) (lastIndex - n)")
      case None
      then have "search r (drop lastIndex s) lastIndex = None"
        using search_shift[of r "drop lastIndex s" "lastIndex - n" n] 1(2) by simp
      with None False show ?thesis using 1(2,3) dr
        by (simp add: matchAll_from.simps[of r s lastIndex]
            matchAll_from.simps[of r "drop n s" "lastIndex - n"])
    next
      case (Some found')
      obtain j rest caps where f': "found' = (j, rest, caps)" by (cases found')
      have big: "search r (drop lastIndex s) lastIndex = Some (j + n, rest, caps)"
        using search_shift[of r "drop lastIndex s" "lastIndex - n" n] 1(2) Some f' by simp
      define m' where "m' = mkMatch (drop n s) (j, rest, caps)"
      define m where "m = mkMatch s (j + n, rest, caps)"
      have mm: "m = shiftMatch n m'" unfolding m_def m'_def using 1(3) by (rule mkMatch_shift)
      define nx' where "nx' = (if match_whole m' = [] then match_index m' + length (match_whole m') + 1
                               else match_index m' + length (match_whole m'))"
      define nx where "nx = (if match_whole m = [] then match_index m + length (match_whole m) + 1
                               else match_index m + length (match_whole m))"
      have nxeq: "nx = nx' + n" "nx' = nx - n" "n \<le> nx"
        by (auto simp: nx_def nx'_def mm shiftMatch_def)
      have L: "matchAll_from r s lastIndex = m # matchAll_from r s nx"
        using False big by (simp add: matchAll_from.simps[of r s lastIndex] m_def nx_def Let_def)
      have R: "matchAll_from r (drop n s) (lastIndex - n) = m' # matchAll_from r (drop n s) nx'"
        using False Some f' dr
        by (simp add: matchAll_from.simps[of r "drop n s" "lastIndex - n"] m'_def nx'_def Let_def)
      note IH = 1(1)[OF False big refl refl refl, folded m_def, folded nx_def]
      have "matchAll_from r s nx = map (shiftMatch n) (matchAll_from r (drop n s) (nx - n))"
        by (rule IH[OF nxeq(3) 1(3)])
      then show ?thesis by (simp add: L R mm nxeq(2))
    qed
  qed
qed

lemma search_found:
  "search r s k = Some (j, st) \<Longrightarrow> matchAt r (drop (j - k) s) = Some st"
proof (induction r s k rule: search.induct)
  case (1 r k)
  then show ?case by (auto split: option.splits)
next
  case (2 r c cs k)
  show ?case
  proof (cases "matchAt r (c # cs)")
    case None
    with 2 have s: "search r cs (Suc k) = Some (j, st)" by simp
    from search_index[OF this] have "j - k = Suc (j - Suc k)" by simp
    with 2(1)[OF None s] show ?thesis by simp
  next
    case (Some a)
    with 2 show ?thesis by auto
  qed
qed

lemma matchAll_from_unfold:
  assumes "matchAll_from r s i = m # ms"
  shows "\<exists>k rest caps. search r (drop i s) i = Some (k, rest, caps) \<and> i \<le> length s \<and>
           m = mkMatch s (k, rest, caps) \<and>
           ms = matchAll_from r s (if match_whole m = [] then match_end m + 1 else match_end m)"
proof -
  from assms have le: "i \<le> length s"
    by (auto simp: matchAll_from.simps[of r s i] split: if_splits)
  with assms obtain found where f: "search r (drop i s) i = Some found"
    by (auto simp: matchAll_from.simps[of r s i] split: option.splits)
  obtain k rest caps where "found = (k, rest, caps)" by (cases found)
  with assms le f show ?thesis
    by (auto simp: matchAll_from.simps[of r s i] Let_def match_end_def)
qed

lemma matchAll_from_split:
  assumes "matchAll_from r s i = pre @ m # post" and "match_whole m \<noteq> []"
  shows "post = matchAll_from r s (match_end m)"
  using assms
proof (induction pre arbitrary: i)
  case Nil
  then have "matchAll_from r s i = m # post" by simp
  from matchAll_from_unfold[OF this] Nil(2) show ?case by auto
next
  case (Cons p pre)
  then have "matchAll_from r s i = p # (pre @ m # post)" by simp
  from matchAll_from_unfold[OF this] obtain i' where "pre @ m # post = matchAll_from r s i'"
    by blast
  with Cons.IH[of i'] Cons.prems(2) show ?case by simp
qed

lemma matchAll_from_mem:
  assumes "m \<in> set (matchAll_from r s i)"
  shows "\<exists>k rest caps. m = mkMatch s (k, rest, caps) \<and> k \<le> length s \<and>
           matchAt r (drop k s) = Some (rest, caps)"
proof -
  from assms obtain pre post where "matchAll_from r s i = pre @ m # post"
    by (meson split_list)
  then show ?thesis
  proof (induction pre arbitrary: i)
    case Nil
    then have "matchAll_from r s i = m # post" by simp
    from matchAll_from_unfold[OF this] obtain k rest caps where
      k: "search r (drop i s) i = Some (k, rest, caps)" "i \<le> length s" "m = mkMatch s (k, rest, caps)"
      by blast
    from search_found[OF k(1)] search_index[OF k(1)] search_upper[OF k(1)] k(2)
    have "matchAt r (drop k s) = Some (rest, caps)" "k \<le> length s" by auto
    with k(3) show ?case by blast
  next
    case (Cons p pre)
    then have "matchAll_from r s i = p # (pre @ m # post)" by simp
    from matchAll_from_unfold[OF this] obtain i' where "pre @ m # post = matchAll_from r s i'"
      by blast
    with Cons.IH[of i'] show ?case by simp
  qed
qed

lemma match_end_le:
  assumes "m \<in> set (matchAll_from r s i)"
  shows "match_end m \<le> length s"
proof -
  from matchAll_from_mem[OF assms] obtain k rest caps where
    "m = mkMatch s (k, rest, caps)" "k \<le> length s" by blast
  then show ?thesis by (simp add: mkMatch_def match_end_def)
qed

lemma issue_match_nonempty:
  assumes "m \<in> set (matchAll_from issuePattern s i)"
  shows "match_whole m \<noteq> []"
proof -
  from matchAll_from_mem[OF assms] obtain k rest caps where
    m: "m = mkMatch s (k, rest, caps)" and k: "k \<le> length s"
    and at: "matchAt issuePattern (drop k s) = Some (rest, caps)" by blast
  from at have "(rest, caps) \<in> set (matches issuePattern (drop k s, []))"
    by (auto simp: matchAt_def split: list.splits)
  from issuePattern_shorter[OF this] have "length rest < length s - k" by simp
  then have "0 < length (match_whole m)" using k by (simp add: m mkMatch_def)
  then show ?thesis by auto
qed

subsection \<open>Sequences and literals\<close>

lemma set_matches_seqs_Cons:
  "set (matches (seqs (r # rs)) st) = (\<Union>x \<in> set (matches r st). set (matches (seqs rs) x))"
  by (cases rs) auto

lemma set_matches_seqs_append:
  "set (matches (seqs (rs @ rs')) st) =
   (\<Union>x \<in> set (matches (seqs rs) st). set (matches (seqs rs') x))"
proof (induction rs arbitrary: st)
  case Nil
  show ?case by simp
next
  case (Cons r rs)
  have "set (matches (seqs ((r # rs) @ rs')) st) =
        (\<Union>x \<in> set (matches r st). set (matches (seqs (rs @ rs')) x))"
    using set_matches_seqs_Cons[of r "rs @ rs'"] by simp
  also have "\<dots> = (\<Union>x \<in> set (matches r st). \<Union>y \<in> set (matches (seqs rs) x).
                       set (matches (seqs rs') y))"
    by (simp only: Cons.IH)
  also have "\<dots> = (\<Union>y \<in> set (matches (seqs (r # rs)) st). set (matches (seqs rs') y))"
    by (simp only: set_matches_seqs_Cons UN_UN_flatten)
  finally show ?case .
qed

lemma search_mono:
  assumes "\<And>t. matchAt r t \<noteq> None \<Longrightarrow> matchAt r' t \<noteq> None"
  shows "search r s k \<noteq> None \<Longrightarrow> search r' s k \<noteq> None"
proof (induction s arbitrary: k)
  case Nil
  then show ?case using assms[of "[]"] by (auto split: option.splits)
next
  case (Cons c cs)
  then show ?case using assms[of "c # cs"] by (auto split: option.splits)
qed

lemma matchAt_None_iff: "matchAt r t = None \<longleftrightarrow> set (matches r (t, [])) = {}"
  by (auto simp: matchAt_def split: list.splits)

lemma set_literalI_snoc:
  "set (matches (literalI (s @ [c])) st) =
   (\<Union>x \<in> set (matches (literalI s) st). set (matches (Sym (LitI c)) x))"
  using set_matches_seqs_append[of "map (\<lambda>c. Sym (LitI c)) s" "[Sym (LitI c)]" st]
  by (simp add: literalI_def)

lemma fieldPattern_needs_name:
  assumes "matchAt (fieldPattern fieldName stopAt) t \<noteq> None"
  shows "matchAt (literalI (fieldName @ [58])) t \<noteq> None"
proof -
  from assms have "set (matches (fieldPattern fieldName stopAt) (t, [])) \<noteq> {}"
    by (simp add: matchAt_None_iff)
  then obtain x where "x \<in> set (matches (fieldPattern fieldName stopAt) (t, []))"
    by fastforce
  then obtain y z where "y \<in> set (matches (literalI fieldName) (t, []))"
    "z \<in> set (matches (Sym (LitI 58)) y)"
    unfolding fieldPattern_def set_matches_seqs_Cons by blast
  then have "z \<in> set (matches (literalI (fieldName @ [58])) (t, []))"
    unfolding set_literalI_snoc by blast
  then show ?thesis by (auto simp: matchAt_None_iff)
qed

section \<open>Properties of the Incremental Stream Parser\<close>

subsection \<open>The loop of parsePartialBuffer\<close>

lemma capture_shift [simp]: "capture (shiftMatch n m) i = capture m i"
  by (simp add: capture_def shiftMatch_def)

lemma loop_result:
  "parsePartialBuffer_loop ms acc lci = (sugs, lci') \<Longrightarrow>
     (quiet ms \<and> sugs = acc \<and> lci' = lci) \<or>
     (\<exists>pre m post. ms = pre @ m # post \<and> lci' = match_end m \<and> quiet post)"
proof (induction ms arbitrary: acc lci)
  case Nil
  then show ?case by (simp add: quiet_def)
next
  case (Cons m rest)
  show ?case
  proof (cases "rest = [] \<and> \<not> isBlockComplete (capture m 2)")
    case True
    then have "quiet (m # rest)" by (simp add: quiet_def)
    with True Cons.prems show ?thesis by simp
  next
    case False
    show ?thesis
    proof (cases "parseIssueBlock (capture m 2)")
      case None
      with False Cons.prems have "parsePartialBuffer_loop rest acc lci = (sugs, lci')"
        by (auto simp: Let_def)
      from Cons.IH[OF this] show ?thesis
      proof
        assume a: "quiet rest \<and> sugs = acc \<and> lci' = lci"
        then have "quiet (m # rest)" using False None by (auto simp: quiet_def Let_def)
        with a show ?thesis by simp
      next
        assume "\<exists>pre m' post. rest = pre @ m' # post \<and> lci' = match_end m' \<and> quiet post"
        then obtain pre m' post where "rest = pre @ m' # post" "lci' = match_end m'" "quiet post"
          by blast
        then have "m # rest = (m # pre) @ m' # post" by simp
        with \<open>lci' = match_end m'\<close> \<open>quiet post\<close> show ?thesis by blast
      qed
    next
      case (Some sg)
      with False Cons.prems
      have "parsePartialBuffer_loop rest (acc @ [sg]) (match_end m) = (sugs, lci')"
        by (auto simp: Let_def match_end_def)
      from Cons.IH[OF this] show ?thesis
      proof
        assume a: "quiet rest \<and> sugs = acc @ [sg] \<and> lci' = match_end m"
        then have "m # rest = [] @ m # rest" by simp
        with a show ?thesis by blast
      next
        assume "\<exists>pre m' post. rest = pre @ m' # post \<and> lci' = match_end m' \<and> quiet post"
        then obtain pre m' post where "rest = pre @ m' # post" "lci' = match_end m'" "quiet post"
          by blast
        then have "m # rest = (m # pre) @ m' # post" by simp
        with \<open>lci' = match_end m'\<close> \<open>quiet post\<close> show ?thesis by blast
      qed
    qed
  qed
qed

lemma loop_fst_shift:
  "fst (parsePartialBuffer_loop (map (shiftMatch n) ms) acc lci) =
   fst (parsePartialBuffer_loop ms acc lci')"
proof (induction ms arbitrary: acc lci lci')
  case Nil
  show ?case by simp
next
  case (Cons m rest)
  show ?case
  proof (cases "parseIssueBlock (capture m 2)")
    case None
    then show ?thesis using Cons.IH by (simp add: Let_def)
  next
    case (Some sg)
    then show ?thesis using Cons.IH by (simp add: Let_def)
  qed
qed

lemma slice_drop:
  "n \<le> length s \<Longrightarrow> slice s (int n) (int (length s)) = drop n s"
  by (simp add: slice_def Let_def)

lemma fst_parsePartialBuffer:
  "fst (parsePartialBuffer buffer) =
   fst (parsePartialBuffer_loop (matchAll_from issuePattern buffer 0) [] 0)"
  by (simp add: parsePartialBuffer_def matchAll_def split: prod.splits)

text \<open>
  C3. Idempotence: parsing the remainder that \<open>parsePartialBuffer\<close> has returned, with no
  new input, yields no record. The remainder starts at the end of the last block that
  produced a record; its blocks are the blocks that followed in the buffer, none of which
  produced a record the first time.
\<close>

theorem parsePartialBuffer_idempotent:
  "fst (parsePartialBuffer (snd (parsePartialBuffer buffer))) = []"
proof -
  define ms where "ms = matchAll_from issuePattern buffer 0"
  obtain sugs lci where run: "parsePartialBuffer_loop ms [] 0 = (sugs, lci)"
    by (cases "parsePartialBuffer_loop ms [] 0")
  have rem: "snd (parsePartialBuffer buffer) = slice buffer (int lci) (int (length buffer))"
    using run by (simp add: parsePartialBuffer_def matchAll_def ms_def)
  from loop_result[OF run] show ?thesis
  proof
    assume q: "quiet ms \<and> sugs = [] \<and> lci = 0"
    then have "snd (parsePartialBuffer buffer) = buffer"
      using rem slice_drop[of 0 buffer] by simp
    moreover have "fst (parsePartialBuffer buffer) = []"
      using q run by (simp add: parsePartialBuffer_def matchAll_def ms_def)
    ultimately show ?thesis by simp
  next
    assume "\<exists>pre m post. ms = pre @ m # post \<and> lci = match_end m \<and> quiet post"
    then obtain pre m post where sp: "ms = pre @ m # post" and lci: "lci = match_end m"
      and q: "quiet post" by blast
    have mem: "m \<in> set (matchAll_from issuePattern buffer 0)" using sp by (simp add: ms_def)
    have le: "match_end m \<le> length buffer" using match_end_le[OF mem] .
    have ne: "match_whole m \<noteq> []" using issue_match_nonempty[OF mem] .
    have "post = matchAll_from issuePattern buffer (match_end m)"
      using matchAll_from_split[OF sp[unfolded ms_def] ne] .
    also have "\<dots> = map (shiftMatch (match_end m))
                    (matchAll_from issuePattern (drop (match_end m) buffer) 0)"
      using matchAll_from_shift[of "match_end m" "match_end m" buffer issuePattern] le by simp
    finally have post: "post = map (shiftMatch (match_end m))
                    (matchAll_from issuePattern (drop (match_end m) buffer) 0)" .
    have "fst (parsePartialBuffer_loop (matchAll_from issuePattern (drop (match_end m) buffer) 0) [] 0)
          = fst (parsePartialBuffer_loop post [] 0)"
      unfolding post by (rule loop_fst_shift[symmetric])
    also have "\<dots> = []" using q by (simp add: quiet_def)
    finally have "fst (parsePartialBuffer (drop (match_end m) buffer)) = []"
      by (simp add: fst_parsePartialBuffer)
    moreover have "snd (parsePartialBuffer buffer) = drop (match_end m) buffer"
      using rem lci le by (simp add: slice_drop)
    ultimately show ?thesis by simp
  qed
qed


subsection \<open>Malformed blocks\<close>

lemma fieldMissing_extractField:
  assumes "fieldMissing block fieldName"
  shows "extractField block fieldName stopAt = None"
proof -
  have "search (literalI (fieldName @ [58])) block 0 = None"
    using assms
    by (cases "search (literalI (fieldName @ [58])) block 0")
      (simp_all add: fieldMissing_def test_def exec_def str_def)
  moreover have "search (fieldPattern fieldName stopAt) block 0 \<noteq> None \<Longrightarrow>
      search (literalI (fieldName @ [58])) block 0 \<noteq> None"
    by (rule search_mono) (rule fieldPattern_needs_name)
  ultimately have "search (fieldPattern fieldName stopAt) block 0 = None"
    by blast
  then show ?thesis by (simp add: extractField_def exec_def)
qed

lemma malformed_no_record:
  assumes "malformed block"
  shows "parseIssueBlock block = None"
proof -
  consider "fieldMissing block (str ''EXCERPT'')" | "fieldMissing block (str ''CATEGORY'')"
    | "fieldMissing block (str ''SEVERITY'')" | "fieldMissing block (str ''PROBLEM'')"
    | "badSeverity block"
    using assms by (auto simp: malformed_def)
  then show ?thesis
  proof cases
    case 1
    from fieldMissing_extractField[OF this] show ?thesis
      by (simp add: parseIssueBlock_def falsy_def)
  next
    case 2
    from fieldMissing_extractField[OF this] show ?thesis
      by (simp add: parseIssueBlock_def falsy_def)
  next
    case 3
    from fieldMissing_extractField[OF this] show ?thesis
      by (simp add: parseIssueBlock_def falsy_def)
  next
    case 4
    from fieldMissing_extractField[OF this] show ?thesis
      by (simp add: parseIssueBlock_def falsy_def)
  next
    case 5
    then obtain v where v: "extractField block (str ''SEVERITY'') (Some (str ''PROBLEM:'')) = Some v"
      and bad: "toLowerCase v \<notin> set [str ''high'', str ''moderate'', str ''low'']"
      by (auto simp: badSeverity_def split: option.splits)
    from bad have "toLowerCase v \<noteq> str ''high''" "toLowerCase v \<noteq> str ''moderate''"
      "toLowerCase v \<noteq> str ''low''" by auto
    then show ?thesis using v by (simp add: parseIssueBlock_def Let_def)
  qed
qed


subsection \<open>What the loop emits\<close>

lemma loop_emits:
  "fst (parsePartialBuffer_loop ms acc lci) =
   acc @ List.map_filter parseIssueBlock (finalBlocks (map (\<lambda>m. capture m 2) ms))"
proof (induction ms arbitrary: acc lci)
  case Nil
  show ?case by (simp add: finalBlocks_def List.map_filter_simps)
next
  case (Cons m rest)
  show ?case
  proof (cases "rest = []")
    case True
    then show ?thesis
      by (cases "parseIssueBlock (capture m 2)")
        (simp_all add: finalBlocks_def List.map_filter_simps Let_def)
  next
    case False
    then have fb: "finalBlocks (capture m 2 # map (\<lambda>m. capture m 2) rest) =
                   capture m 2 # finalBlocks (map (\<lambda>m. capture m 2) rest)"
      by (simp add: finalBlocks_def)
    show ?thesis
      using False Cons.IH
      by (cases "parseIssueBlock (capture m 2)")
        (simp_all add: fb List.map_filter_simps Let_def)
  qed
qed

lemma parsePartialBuffer_emits:
  "fst (parsePartialBuffer buffer) = List.map_filter parseIssueBlock (finalBlocks (blocks buffer))"
  using loop_emits[of "matchAll issuePattern buffer" "[]" 0]
  by (simp add: fst_parsePartialBuffer blocks_def matchAll_def)

lemma map_filter_append:
  "List.map_filter f (xs @ ys) = List.map_filter f xs @ List.map_filter f ys"
  by (simp add: List.map_filter_def)

lemma map_filter_all_Some:
  "\<forall>x \<in> set xs. f x \<noteq> None \<Longrightarrow> List.map_filter f xs = map (\<lambda>x. the (f x)) xs"
  by (induction xs) (auto simp: List.map_filter_simps)

text \<open>
  A malformed block does not halt ingestion. When block \<open>i\<close> of the buffer is \<open>malformed\<close>
  (the name and colon of a required field occur nowhere in it, or its \<open>SEVERITY\<close> value as
  \<open>extractField\<close> reads it is not one of the three tokens) and every block after it
  (there is at least one) is complete and well-formed, the call emits no record for
  block \<open>i\<close> and emits, after the records of the blocks before it, the record of every
  later block, in order.
\<close>

theorem malformed_block_skipped:
  assumes "Suc i < length (blocks buffer)"
    and "malformed (blocks buffer ! i)"
    and "\<forall>j. i < j \<and> j < length (blocks buffer) \<longrightarrow>
           isBlockComplete (blocks buffer ! j) \<and> parseIssueBlock (blocks buffer ! j) \<noteq> None"
  shows "fst (parsePartialBuffer buffer) =
         List.map_filter parseIssueBlock (take i (blocks buffer)) @
         map (\<lambda>b. the (parseIssueBlock b)) (drop (Suc i) (blocks buffer))"
proof -
  define bs where "bs = blocks buffer"
  have ne: "bs \<noteq> []" using assms(1) by (auto simp: bs_def)
  have "last bs = bs ! (length bs - 1)" using ne by (simp add: last_conv_nth)
  moreover have "i < length bs - 1" "length bs - 1 < length bs" using assms(1) by (auto simp: bs_def)
  ultimately have "isBlockComplete (last bs)" using assms(3) by (simp add: bs_def)
  then have fb: "finalBlocks bs = bs" by (simp add: finalBlocks_def)
  have split: "bs = take i bs @ (bs ! i) # drop (Suc i) bs"
    using assms(1) by (simp add: bs_def id_take_nth_drop)
  have bad: "parseIssueBlock (bs ! i) = None"
    using malformed_no_record assms(2) by (simp add: bs_def)
  have good: "\<forall>b \<in> set (drop (Suc i) bs). parseIssueBlock b \<noteq> None"
  proof
    fix b assume "b \<in> set (drop (Suc i) bs)"
    then obtain k where "k < length (drop (Suc i) bs)" "b = drop (Suc i) bs ! k"
      by (auto simp: in_set_conv_nth)
    then have "b = bs ! (Suc i + k)" "Suc i + k < length bs" by auto
    then show "parseIssueBlock b \<noteq> None" using assms(3) by (simp add: bs_def)
  qed
  have "List.map_filter parseIssueBlock bs =
        List.map_filter parseIssueBlock (take i bs) @
        List.map_filter parseIssueBlock ((bs ! i) # drop (Suc i) bs)"
    using split map_filter_append[of parseIssueBlock "take i bs" "(bs ! i) # drop (Suc i) bs"]
    by simp
  also have "List.map_filter parseIssueBlock ((bs ! i) # drop (Suc i) bs) =
             map (\<lambda>b. the (parseIssueBlock b)) (drop (Suc i) bs)"
    using bad map_filter_all_Some[OF good] by (simp add: List.map_filter_simps)
  finally show ?thesis using fb by (simp add: parsePartialBuffer_emits bs_def)
qed


theorem malformed_block_skipped_witness:
  "Suc 0 < length (blocks (str ''---\<newline>ISSUE 1\<newline>EXCERPT: a\<newline>CATEGORY: b\<newline>SEVERITY: urgent\<newline>PROBLEM: c\<newline>FIX: d\<newline>---\<newline>ISSUE 2\<newline>EXCERPT: e\<newline>CATEGORY: f\<newline>SEVERITY: low\<newline>PROBLEM: g\<newline>FIX: h'')) \<and>
   malformed (blocks (str ''---\<newline>ISSUE 1\<newline>EXCERPT: a\<newline>CATEGORY: b\<newline>SEVERITY: urgent\<newline>PROBLEM: c\<newline>FIX: d\<newline>---\<newline>ISSUE 2\<newline>EXCERPT: e\<newline>CATEGORY: f\<newline>SEVERITY: low\<newline>PROBLEM: g\<newline>FIX: h'') ! 0) \<and>
   fst (parsePartialBuffer (str ''---\<newline>ISSUE 1\<newline>EXCERPT: a\<newline>CATEGORY: b\<newline>SEVERITY: urgent\<newline>PROBLEM: c\<newline>FIX: d\<newline>---\<newline>ISSUE 2\<newline>EXCERPT: e\<newline>CATEGORY: f\<newline>SEVERITY: low\<newline>PROBLEM: g\<newline>FIX: h'')) =
     [\<lparr>comment = str ''g'', target_excerpt = str ''e'', category = str ''f'',
       severity = str ''low'', explanation = str ''g'', rewrite = str ''h''\<rparr>]"
proof -
  define W where "W = str ''---\<newline>ISSUE 1\<newline>EXCERPT: a\<newline>CATEGORY: b\<newline>SEVERITY: urgent\<newline>PROBLEM: c\<newline>FIX: d\<newline>---\<newline>ISSUE 2\<newline>EXCERPT: e\<newline>CATEGORY: f\<newline>SEVERITY: low\<newline>PROBLEM: g\<newline>FIX: h''"
  define B1 where "B1 = str ''EXCERPT: a\<newline>CATEGORY: b\<newline>SEVERITY: urgent\<newline>PROBLEM: c\<newline>FIX: d\<newline>''"
  define B2 where "B2 = str ''EXCERPT: e\<newline>CATEGORY: f\<newline>SEVERITY: low\<newline>PROBLEM: g\<newline>FIX: h''"
  have b: "blocks W = [B1, B2]" unfolding W_def B1_def B2_def by code_simp
  have m: "malformed B1" unfolding B1_def by code_simp
  have c: "isBlockComplete B2" unfolding B2_def by code_simp
  have p: "parseIssueBlock B2 = Some \<lparr>comment = str ''g'', target_excerpt = str ''e'',
             category = str ''f'', severity = str ''low'', explanation = str ''g'',
             rewrite = str ''h''\<rparr>"
    unfolding B2_def by code_simp
  have h1: "Suc 0 < length (blocks W)" by (simp add: b)
  have h2: "malformed (blocks W ! 0)" by (simp add: b m)
  have h3: "\<forall>j. 0 < j \<and> j < length (blocks W) \<longrightarrow>
           isBlockComplete (blocks W ! j) \<and> parseIssueBlock (blocks W ! j) \<noteq> None"
    by (auto simp: b c p less_Suc_eq)
  from malformed_block_skipped[OF h1 h2 h3]
  have "fst (parsePartialBuffer W) = [the (parseIssueBlock B2)]"
    by (simp add: b List.map_filter_simps)
  with h1 h2 p show ?thesis unfolding W_def by simp
qed

text \<open>
  C4 fails for a block that lacks a required field while the name of that field occurs
  in the text of another. The first block of this buffer has no \<open>CATEGORY\<close> field, and
  its excerpt contains the words ``category: noun''. \<open>extractField\<close> looks for the name
  anywhere in the block: it ends the excerpt at these words and reads the category
  after them, so \<open>parseIssueBlock\<close> builds a record for the block, with the excerpt
  \<open>"Wrong\<close> and the category \<open>noun"\<close>. The call emits that record before the record of
  the second block.
\<close>

theorem missing_field_block_emitted:
  "blocks (str ''---\<newline>ISSUE 1\<newline>EXCERPT: \"Wrong category: noun\"\<newline>SEVERITY: high\<newline>PROBLEM: p\<newline>FIX: f\<newline>---\<newline>ISSUE 2\<newline>EXCERPT: a\<newline>CATEGORY: b\<newline>SEVERITY: low\<newline>PROBLEM: c\<newline>FIX: d\<newline>---\<newline>'') =
     [str ''EXCERPT: \"Wrong category: noun\"\<newline>SEVERITY: high\<newline>PROBLEM: p\<newline>FIX: f\<newline>'',
      str ''EXCERPT: a\<newline>CATEGORY: b\<newline>SEVERITY: low\<newline>PROBLEM: c\<newline>FIX: d\<newline>''] \<and>
   parseIssueBlock (str ''EXCERPT: \"Wrong category: noun\"\<newline>SEVERITY: high\<newline>PROBLEM: p\<newline>FIX: f\<newline>'') =
     Some \<lparr>comment = str ''p'', target_excerpt = str ''\"Wrong'', category = str ''noun\"'',
           severity = str ''high'', explanation = str ''p'', rewrite = str ''f''\<rparr> \<and>
   fst (parsePartialBuffer (str ''---\<newline>ISSUE 1\<newline>EXCERPT: \"Wrong category: noun\"\<newline>SEVERITY: high\<newline>PROBLEM: p\<newline>FIX: f\<newline>---\<newline>ISSUE 2\<newline>EXCERPT: a\<newline>CATEGORY: b\<newline>SEVERITY: low\<newline>PROBLEM: c\<newline>FIX: d\<newline>---\<newline>'')) =
     [\<lparr>comment = str ''p'', target_excerpt = str ''\"Wrong'', category = str ''noun\"'',
       severity = str ''high'', explanation = str ''p'', rewrite = str ''f''\<rparr>,
      \<lparr>comment = str ''c'', target_excerpt = str ''a'', category = str ''b'',
       severity = str ''low'', explanation = str ''c'', rewrite = str ''d''\<rparr>]"
proof (intro conjI)
  show "blocks (str ''---\<newline>ISSUE 1\<newline>EXCERPT: \"Wrong category: noun\"\<newline>SEVERITY: high\<newline>PROBLEM: p\<newline>FIX: f\<newline>---\<newline>ISSUE 2\<newline>EXCERPT: a\<newline>CATEGORY: b\<newline>SEVERITY: low\<newline>PROBLEM: c\<newline>FIX: d\<newline>---\<newline>'') =
     [str ''EXCERPT: \"Wrong category: noun\"\<newline>SEVERITY: high\<newline>PROBLEM: p\<newline>FIX: f\<newline>'',
      str ''EXCERPT: a\<newline>CATEGORY: b\<newline>SEVERITY: low\<newline>PROBLEM: c\<newline>FIX: d\<newline>'']"
    by code_simp
  show "parseIssueBlock (str ''EXCERPT: \"Wrong category: noun\"\<newline>SEVERITY: high\<newline>PROBLEM: p\<newline>FIX: f\<newline>'') =
     Some \<lparr>comment = str ''p'', target_excerpt = str ''\"Wrong'', category = str ''noun\"'',
           severity = str ''high'', explanation = str ''p'', rewrite = str ''f''\<rparr>"
    by code_simp
  show "fst (parsePartialBuffer (str ''---\<newline>ISSUE 1\<newline>EXCERPT: \"Wrong category: noun\"\<newline>SEVERITY: high\<newline>PROBLEM: p\<newline>FIX: f\<newline>---\<newline>ISSUE 2\<newline>EXCERPT: a\<newline>CATEGORY: b\<newline>SEVERITY: low\<newline>PROBLEM: c\<newline>FIX: d\<newline>---\<newline>'')) =
     [\<lparr>comment = str ''p'', target_excerpt = str ''\"Wrong'', category = str ''noun\"'',
       severity = str ''high'', explanation = str ''p'', rewrite = str ''f''\<rparr>,
      \<lparr>comment = str ''c'', target_excerpt = str ''a'', category = str ''b'',
       severity = str ''low'', explanation = str ''c'', rewrite = str ''d''\<rparr>]"
    by code_simp
qed


section \<open>Properties of the Assignment Policy\<close>

lemma committedDisjoint_snoc:
  assumes "committedDisjoint h rs" and "\<forall>u \<in> set rs. intersection h u r = None"
  shows "committedDisjoint h (rs @ [r])"
  unfolding committedDisjoint_def
proof (intro allI impI)
  fix i j assume ij: "i < j \<and> j < length (rs @ [r])"
  show "intersection h ((rs @ [r]) ! i) ((rs @ [r]) ! j) = None"
  proof (cases "j < length rs")
    case True
    with ij assms(1) show ?thesis by (simp add: committedDisjoint_def nth_append)
  next
    case False
    with ij have j: "j = length rs" and i: "i < length rs" by auto
    then have "rs ! i \<in> set rs" by simp
    with assms(2) j i show ?thesis by (simp add: nth_append)
  qed
qed

lemma add_suppressed:
  "suppressed h suggestion \<Longrightarrow> addSuggestionAsDiagnostic h suggestion text st = st"
  by (simp add: addSuggestionAsDiagnostic_def suppressed_def)

lemma add_unlocated:
  assumes "\<not> suppressed h suggestion" and "candidateRange h text suggestion = None"
  shows "addSuggestionAsDiagnostic h suggestion text st =
         withoutQuickFix ((0, 0), (0, 0)) suggestion st"
proof -
  have s: "\<not> (length (dictionary h) > 0 \<and> category suggestion = str ''spelling'' \<and>
         (case extractMisspelledWord h (comment suggestion) of
            None \<Rightarrow> False
          | Some word \<Rightarrow> word \<noteq> [] \<and> word \<in> set (dictionary h)))"
    using assms(1) by (simp add: suppressed_def)
  have "target_excerpt suggestion = [] \<or> indexOf text (target_excerpt suggestion) 0 = - 1"
    using assms(2) by (simp add: candidateRange_def Let_def split: if_splits)
  then show ?thesis
    unfolding addSuggestionAsDiagnostic_def if_not_P[OF s] by (auto simp: Let_def)
qed

lemma add_located:
  assumes "\<not> suppressed h suggestion" and "candidateRange h text suggestion = Some r"
  shows "addSuggestionAsDiagnostic h suggestion text st =
         (if isQuickFixable suggestion \<and> \<not> overlapsCommitted h r st
          then commit r suggestion st
          else withoutQuickFix r suggestion st)"
proof -
  have s: "\<not> (length (dictionary h) > 0 \<and> category suggestion = str ''spelling'' \<and>
         (case extractMisspelledWord h (comment suggestion) of
            None \<Rightarrow> False
          | Some word \<Rightarrow> word \<noteq> [] \<and> word \<in> set (dictionary h)))"
    using assms(1) by (simp add: suppressed_def)
  have l: "target_excerpt suggestion \<noteq> []" "indexOf text (target_excerpt suggestion) 0 \<noteq> - 1"
    and r: "r = (positionAt h (indexOf text (target_excerpt suggestion) 0),
                positionAt h (indexOf text (target_excerpt suggestion) 0 +
                  int (length (target_excerpt suggestion))))"
    using assms(2) by (auto simp: candidateRange_def Let_def split: if_splits)
  show ?thesis
    unfolding addSuggestionAsDiagnostic_def if_not_P[OF s] if_P[OF l(1)]
    by (simp add: Let_def l(2) r[symmetric] overlapsCommitted_def commit_def)
qed

lemma addSuggestion_invariant:
  assumes "committedDisjoint h (usedRanges st)" and "fixableRanges st = usedRanges st"
  shows "committedDisjoint h (usedRanges (addSuggestionAsDiagnostic h suggestion text st)) \<and>
         fixableRanges (addSuggestionAsDiagnostic h suggestion text st) =
         usedRanges (addSuggestionAsDiagnostic h suggestion text st)"
proof (cases "suppressed h suggestion")
  case True
  with assms show ?thesis by (simp add: add_suppressed)
next
  case False
  show ?thesis
  proof (cases "candidateRange h text suggestion")
    case None
    with False assms show ?thesis
      by (simp add: add_unlocated withoutQuickFix_def fixableRanges_def)
  next
    case (Some r)
    show ?thesis
    proof (cases "isQuickFixable suggestion \<and> \<not> overlapsCommitted h r st")
      case True
      then have "\<not> overlapsCommitted h r st" by blast
      then have free: "\<forall>u \<in> set (usedRanges st). intersection h u r = None"
        unfolding overlapsCommitted_def list_ex_iff by blast
      have "addSuggestionAsDiagnostic h suggestion text st = commit r suggestion st"
        unfolding add_located[OF False Some] using True by (rule if_P)
      with committedDisjoint_snoc[OF assms(1) free] assms(2) show ?thesis
        by (simp add: commit_def fixableRanges_def)
    next
      case no: False
      have "addSuggestionAsDiagnostic h suggestion text st = withoutQuickFix r suggestion st"
        unfolding add_located[OF False Some] using no by (rule if_not_P)
      with assms show ?thesis
        by (simp add: withoutQuickFix_def fixableRanges_def)
    qed
  qed
qed

lemma review_invariant:
  "committedDisjoint h (usedRanges st) \<Longrightarrow> fixableRanges st = usedRanges st \<Longrightarrow>
   committedDisjoint h (usedRanges (review h text suggestions st)) \<and>
   fixableRanges (review h text suggestions st) = usedRanges (review h text suggestions st)"
proof (induction suggestions arbitrary: st)
  case Nil
  then show ?case by simp
next
  case (Cons s rest)
  from addSuggestion_invariant[OF Cons.prems, of s "text"]
  show ?case using Cons.IH by simp
qed

text \<open>
  C5. Overlap downgrade. At every point of a review no committed range intersects a
  range committed after it, and the diagnostics that carry an identifier are exactly the
  committed ranges, in order. And whenever a suggestion that reaches the location step
  (the dictionary has not suppressed it) is found in the document and its range
  intersects a committed range, the only effect is one more diagnostic with that range,
  severity \<open>Hint\<close> and no identifier: the committed ranges, the counter and the map stay
  as they are, whether or not the suggestion is quick-fixable by itself.
\<close>

theorem overlap_downgrade:
  "committedDisjoint h (usedRanges (review h text suggestions newSession)) \<and>
   fixableRanges (review h text suggestions newSession) =
     usedRanges (review h text suggestions newSession) \<and>
   (\<forall>r. \<not> suppressed h suggestion \<and> candidateRange h text suggestion = Some r \<and>
        overlapsCommitted h r st \<longrightarrow>
        addSuggestionAsDiagnostic h suggestion text st =
          st\<lparr>diagnostics := diagnostics st @
               [\<lparr>diag_range = r, diag_message = comment suggestion, diag_severity = Hint,
                 diag_source = str ''FramerD'', diag_code = None\<rparr>]\<rparr>)"
proof (intro conjI allI impI)
  have init: "committedDisjoint h (usedRanges newSession)"
    "fixableRanges newSession = usedRanges newSession"
    by (simp_all add: committedDisjoint_def fixableRanges_def newSession_def)
  from review_invariant[OF init]
  show "committedDisjoint h (usedRanges (review h text suggestions newSession))"
    and "fixableRanges (review h text suggestions newSession) =
         usedRanges (review h text suggestions newSession)"
    by simp_all
next
  fix r
  assume a: "\<not> suppressed h suggestion \<and> candidateRange h text suggestion = Some r \<and>
        overlapsCommitted h r st"
  then show "addSuggestionAsDiagnostic h suggestion text st =
          st\<lparr>diagnostics := diagnostics st @
               [\<lparr>diag_range = r, diag_message = comment suggestion, diag_severity = Hint,
                 diag_source = str ''FramerD'', diag_code = None\<rparr>]\<rparr>"
    by (simp add: add_located withoutQuickFix_def)
qed

theorem overlap_downgrade_witness:
  "usedRanges (review oneLineEditor (str ''The cat sat on mat.'') [catSuggestion] newSession) =
     [((0, 0), (0, 18))] \<and>
   isQuickFixable satSuggestion \<and>
   candidateRange oneLineEditor (str ''The cat sat on mat.'') satSuggestion =
     Some ((0, 4), (0, 11)) \<and>
   addSuggestionAsDiagnostic oneLineEditor satSuggestion (str ''The cat sat on mat.'')
     (review oneLineEditor (str ''The cat sat on mat.'') [catSuggestion] newSession) =
   (review oneLineEditor (str ''The cat sat on mat.'') [catSuggestion] newSession)
     \<lparr>diagnostics :=
        diagnostics (review oneLineEditor (str ''The cat sat on mat.'') [catSuggestion] newSession) @
        [\<lparr>diag_range = ((0, 4), (0, 11)), diag_message = str ''Tense'', diag_severity = Hint,
          diag_source = str ''FramerD'', diag_code = None\<rparr>]\<rparr>"
proof -
  define st where "st = review oneLineEditor (str ''The cat sat on mat.'') [catSuggestion] newSession"
  have u: "usedRanges st = [((0, 0), (0, 18))]" unfolding st_def by code_simp
  have q: "isQuickFixable satSuggestion" by code_simp
  have c: "candidateRange oneLineEditor (str ''The cat sat on mat.'') satSuggestion =
             Some ((0, 4), (0, 11))" by code_simp
  have n: "\<not> suppressed oneLineEditor satSuggestion"
    by (simp add: suppressed_def oneLineEditor_def)
  have o: "overlapsCommitted oneLineEditor ((0, 4), (0, 11)) st"
    unfolding overlapsCommitted_def u by code_simp
  have m: "comment satSuggestion = str ''Tense''" by (simp add: satSuggestion_def)
  from overlap_downgrade[of oneLineEditor "str ''The cat sat on mat.''" "[catSuggestion]"
      satSuggestion st] n c o
  have "addSuggestionAsDiagnostic oneLineEditor satSuggestion (str ''The cat sat on mat.'') st =
        st\<lparr>diagnostics := diagnostics st @
          [\<lparr>diag_range = ((0, 4), (0, 11)), diag_message = comment satSuggestion,
            diag_severity = Hint, diag_source = str ''FramerD'', diag_code = None\<rparr>]\<rparr>"
    by blast
  with u q c m show ?thesis unfolding st_def by simp
qed


section \<open>Properties of the Completeness Detector\<close>

subsection \<open>Literals and the leftmost match\<close>

lemma concat_map_single: "concat (map (\<lambda>x. [x]) xs) = xs"
  by (induction xs) simp_all

lemma matches_Eps_fun: "matches Eps = (\<lambda>st. [st])"
  by (rule ext) simp

lemma matches_seqs_Cons:
  "matches (seqs (r # rs)) st = concat (map (matches (seqs rs)) (matches r st))"
  by (cases rs) (simp_all add: matches_Eps_fun concat_map_single)

lemma literalI_Cons: "literalI (x # p) = seqs (Sym (LitI x) # map (\<lambda>c. Sym (LitI c)) p)"
  by (simp add: literalI_def)

lemma matches_literalI:
  "matches (literalI p) (s, c) = (if iprefix p s then [(drop (length p) s, c)] else [])"
proof (induction p arbitrary: s)
  case Nil
  show ?case by (simp add: literalI_def iprefix_def)
next
  case (Cons x p)
  have step: "matches (literalI (x # p)) (t, c) =
        concat (map (matches (literalI p)) (matches (Sym (LitI x)) (t, c)))" for t
    unfolding literalI_Cons matches_seqs_Cons by (simp add: literalI_def)
  show ?case
  proof (cases s)
    case Nil
    then show ?thesis by (simp add: step iprefix_def)
  next
    case s: (Cons y s')
    show ?thesis
    proof (cases "upperASCII y = upperASCII x")
      case True
      then have "matches (literalI (x # p)) (s, c) = matches (literalI p) (s', c)"
        by (simp add: step s)
      also have "\<dots> = (if iprefix p s' then [(drop (length p) s', c)] else [])"
        by (rule Cons.IH)
      also have "iprefix p s' = iprefix (x # p) s"
        using True by (simp add: iprefix_def s)
      finally show ?thesis by (simp add: s)
    next
      case False
      then have "matches (literalI (x # p)) (s, c) = []" by (simp add: step s)
      moreover have "\<not> iprefix (x # p) s" using False by (simp add: iprefix_def s)
      ultimately show ?thesis by simp
    qed
  qed
qed

lemma search_first:
  "n \<le> length s \<Longrightarrow> \<forall>i<n. matchAt r (drop i s) = None \<Longrightarrow>
   matchAt r (drop n s) = Some st \<Longrightarrow> search r s k = Some (k + n, st)"
proof (induction n arbitrary: s k)
  case 0
  then show ?case by (cases s) simp_all
next
  case (Suc n)
  then obtain c cs where s: "s = c # cs" by (cases s) auto
  from Suc.prems(2) have none: "matchAt r (c # cs) = None" using s by force
  have "\<forall>i<n. matchAt r (drop i cs) = None"
  proof (intro allI impI)
    fix i assume "i < n"
    then have "matchAt r (drop (Suc i) s) = None" using Suc.prems(2) by simp
    then show "matchAt r (drop i cs) = None" by (simp add: s)
  qed
  moreover have "n \<le> length cs" "matchAt r (drop n cs) = Some st"
    using Suc.prems s by simp_all
  ultimately have "search r cs (Suc k) = Some (Suc k + n, st)"
    using Suc.IH[of cs "Suc k"] by blast
  with none show ?case by (simp add: s)
qed

lemma search_none:
  "\<forall>i\<le>length s. matchAt r (drop i s) = None \<Longrightarrow> search r s k = None"
proof (induction s arbitrary: k)
  case Nil
  then show ?case by simp
next
  case (Cons c cs)
  from Cons.prems have "matchAt r (c # cs) = None" by force
  moreover have "\<forall>i\<le>length cs. matchAt r (drop i cs) = None"
  proof (intro allI impI)
    fix i assume "i \<le> length cs"
    then have "matchAt r (drop (Suc i) (c # cs)) = None" using Cons.prems by (metis Suc_le_mono length_Cons)
    then show "matchAt r (drop i cs) = None" by simp
  qed
  ultimately show ?case using Cons.IH by simp
qed

lemma search_some:
  assumes "n \<le> length s" and "matchAt r (drop n s) \<noteq> None"
  shows "search r s k \<noteq> None"
  using assms
proof (induction n arbitrary: s k)
  case 0
  then show ?case by (cases s) auto
next
  case (Suc n)
  then obtain c cs where s: "s = c # cs" by (cases s) auto
  with Suc.prems have "search r cs (Suc k) \<noteq> None" using Suc.IH[of cs "Suc k"] by simp
  then show ?case by (cases "matchAt r (c # cs)") (auto simp: s)
qed


subsection \<open>Trimming\<close>

lemma dropWhile_drop:
  "n \<le> length (takeWhile P s) \<Longrightarrow> dropWhile P (drop n s) = dropWhile P s"
proof (induction s arbitrary: n)
  case Nil
  then show ?case by simp
next
  case (Cons c s)
  then show ?case by (cases n) (auto split: if_splits)
qed

lemma classMatch_Space [simp]: "classMatch Space = isSpace"
  by (rule ext) simp

lemma classMatch_Any [simp]: "classMatch Any = (\<lambda>c. True)"
  by (rule ext) simp

lemma trim_drop_space: "n \<le> run Space s \<Longrightarrow> trim (drop n s) = trim s"
  by (simp add: trim_def trimStart_def run_def dropWhile_drop[of n isSpace s])

subsection \<open>The FIX pattern\<close>

lemma run_Any [simp]: "run Any s = length s"
  by (induction s) (simp_all add: run_def)

lemma set_upt_Suc: "set [0..<Suc n] = {k. k \<le> n}" "set [1..<Suc n] = {k. 1 \<le> k \<and> k \<le> n}"
  by auto

lemma set_matches_capture_all:
  "set (matches (Group i (LazyPlus Any)) (u, c)) =
   {(drop k u, (i, take k u) # c) | k. 1 \<le> k \<and> k \<le> length u}"
proof -
  have "set (matches (Group i (LazyPlus Any)) (u, c)) =
        (\<lambda>k. (drop k u, (i, take (length u - length (drop k u)) u) # c)) ` set [1..<Suc (length u)]"
    by (simp add: image_image del: upt_Suc)
  also have "\<dots> = (\<lambda>k. (drop k u, (i, take k u) # c)) ` {k. 1 \<le> k \<and> k \<le> length u}"
    unfolding set_upt_Suc by (rule image_cong) auto
  also have "\<dots> = {(drop k u, (i, take k u) # c) | k. 1 \<le> k \<and> k \<le> length u}"
    by auto
  finally show ?thesis .
qed

lemma set_matches_Star:
  "set (matches (Star x) (t, c)) = {(drop n t, c) | n. n \<le> run x t}"
proof -
  have "set (matches (Star x) (t, c)) = (\<lambda>n. (drop n t, c)) ` set [0..<Suc (run x t)]"
    by (simp del: upt_Suc)
  also have "\<dots> = {(drop n t, c) | n. n \<le> run x t}"
    unfolding set_upt_Suc by auto
  finally show ?thesis .
qed

lemma set_matches_Seq:
  "set (matches (Seq a b) st) = (\<Union>x \<in> set (matches a st). set (matches b x))"
  by simp

lemma set_matches_Eos: "set (matches Eos (u, c)) = (if u = [] then {(u, c)} else {})"
  by simp

lemma set_matches_capture_to_end:
  "set (matches (Seq (Group i (LazyPlus Any)) Eos) (u, c)) =
   (if u = [] then {} else {([], (i, u) # c)})"
proof -
  have "set (matches (Seq (Group i (LazyPlus Any)) Eos) (u, c)) =
        (\<Union>x \<in> {(drop k u, (i, take k u) # c) | k. 1 \<le> k \<and> k \<le> length u}.
           set (matches Eos x))"
    by (simp only: set_matches_Seq set_matches_capture_all)
  also have "\<dots> = {(drop k u, (i, take k u) # c) | k. 1 \<le> k \<and> k \<le> length u \<and> drop k u = []}"
    by (auto simp: set_matches_Eos simp del: matches.simps split: if_splits)
  also have "\<dots> = (if u = [] then {} else {([], (i, u) # c)})"
    by (cases u) (auto simp: Suc_le_eq)
  finally show ?thesis .
qed

lemma set_matches_fixTail:
  "set (matches fixTail (t, [])) =
   {([], [(1, drop n t)]) | n. n \<le> run Space t \<and> drop n t \<noteq> []}"
proof -
  have ft: "fixTail = Seq (Star Space) (Seq (Group 1 (LazyPlus Any)) Eos)"
    by (simp add: fixTail_def)
  have "set (matches fixTail (t, [])) =
        (\<Union>x \<in> set (matches (Star Space) (t, [])).
           set (matches (Seq (Group 1 (LazyPlus Any)) Eos) x))"
    unfolding ft by (rule set_matches_Seq)
  also have "\<dots> = (\<Union>x \<in> {(drop n t, []) | n. n \<le> run Space t}.
           set (matches (Seq (Group 1 (LazyPlus Any)) Eos) x))"
    by (simp only: set_matches_Star)
  also have "\<dots> = {([], [(1, drop n t)]) | n. n \<le> run Space t \<and> drop n t \<noteq> []}"
    by (auto simp only: set_matches_capture_to_end split: if_splits)
  finally show ?thesis .
qed

lemma matches_fixPattern:
  "matches fixPattern (s, []) =
   (if iprefix (str ''FIX:'') s then matches fixTail (drop 4 s, []) else [])"
proof -
  have "matches fixPattern (s, []) =
        concat (map (matches fixTail) (matches (literalI (str ''FIX:'')) (s, [])))"
    unfolding fixPattern_def fixTail_def by (rule matches_seqs_Cons)
  moreover have "length (str ''FIX:'') = 4" by (simp add: str_def)
  ultimately show ?thesis by (simp add: matches_literalI)
qed

lemma matchAt_fixPattern_none:
  "\<not> iprefix (str ''FIX:'') s \<Longrightarrow> matchAt fixPattern s = None"
  by (simp add: matchAt_def matches_fixPattern)

lemma matchAt_fixPattern_some:
  assumes "iprefix (str ''FIX:'') s" and "drop 4 s \<noteq> []"
  shows "\<exists>n. n \<le> run Space (drop 4 s) \<and> drop n (drop 4 s) \<noteq> [] \<and>
             matchAt fixPattern s = Some ([], [(1, drop n (drop 4 s))])"
proof -
  have "([], [(1, drop 0 (drop 4 s))]) \<in> set (matches fixTail (drop 4 s, []))"
    unfolding set_matches_fixTail using assms(2) by fastforce
  then obtain x xs where xs: "matches fixTail (drop 4 s, []) = x # xs"
    by (cases "matches fixTail (drop 4 s, [])") auto
  then have "x \<in> set (matches fixTail (drop 4 s, []))" by simp
  then obtain n where "n \<le> run Space (drop 4 s)" "drop n (drop 4 s) \<noteq> []"
    "x = ([], [(1, drop n (drop 4 s))])"
    unfolding set_matches_fixTail by blast
  moreover have "matchAt fixPattern s = Some x"
    using assms(1) xs by (simp add: matchAt_def matches_fixPattern)
  ultimately show ?thesis by blast
qed

lemma matchAt_fixPattern_empty:
  assumes "drop 4 s = []"
  shows "matchAt fixPattern s = None"
proof -
  have "set (matches fixTail (drop 4 s, [])) = {}"
    unfolding set_matches_fixTail using assms by simp
  then show ?thesis by (simp add: matchAt_def matches_fixPattern)
qed


subsection \<open>The completeness rule\<close>

lemma startsWith_single: "startsWith v [q] \<longleftrightarrow> v \<noteq> [] \<and> hd v = q"
  by (cases v) (simp_all add: startsWith_def)

lemma isBlockComplete_loop_iff:
  "isBlockComplete_loop qs v \<longleftrightarrow>
     v \<noteq> [] \<and> (\<forall>q \<in> set qs. startsWith v [q] \<longrightarrow> endsWith v [q] \<and> length v > 1)"
proof (induction qs)
  case Nil
  show ?case by simp
next
  case (Cons q qs)
  show ?case
  proof (cases "startsWith v [q]")
    case True
    then have "\<forall>q' \<in> set qs. startsWith v [q'] \<longrightarrow> q' = q"
      by (auto simp: startsWith_single)
    with True show ?thesis by (auto simp: startsWith_single)
  next
    case False
    with Cons.IH show ?thesis by simp
  qed
qed

lemma iprefix_append: "iprefix p s \<Longrightarrow> iprefix p (s @ t)"
  by (simp add: iprefix_def)

lemma test_iff_search: "test r s \<longleftrightarrow> search r s 0 \<noteq> None"
  by (simp add: test_def exec_def)

lemma test_literalI_at:
  assumes "n \<le> length s" and "iprefix p (drop n s)"
  shows "test (literalI p) s"
proof -
  have "matchAt (literalI p) (drop n s) \<noteq> None"
    using assms(2) by (simp add: matchAt_def matches_literalI)
  from search_some[OF assms(1) this] show ?thesis by (simp add: test_iff_search)
qed

lemma capture_mkMatch: "capture (mkMatch s (k, rest, caps)) i = (case map_of caps i of None \<Rightarrow> [] | Some t \<Rightarrow> t)"
  by (simp add: capture_def mkMatch_def)

text \<open>
  C2, as the code has it. The block contains each of the five field names followed by a
  colon (in any case); \<open>fx\<close> is the \<open>FIX:\<close> of its \<open>FIX\<close> field, and no \<open>FIX:\<close> (in any case)
  occurs in the block before it; the \<open>FIX\<close> value, which is what follows \<open>fx\<close> up to the end
  of the block, trimmed, does not begin with a typographic quotation mark. Then the
  block is complete exactly when the \<open>FIX\<close> value is not empty and, when it begins with a
  straight double or single quotation mark, also ends with that character and is
  longer than one character. An empty \<open>FIX\<close> value makes the block incomplete.
\<close>

theorem isBlockComplete_rule:
  assumes "test (literalI (str ''EXCERPT:'')) block"
    and "test (literalI (str ''CATEGORY:'')) block"
    and "test (literalI (str ''SEVERITY:'')) block"
    and "test (literalI (str ''PROBLEM:'')) block"
    and "block = pre @ fx @ rest"
    and "length fx = 4"
    and "iprefix (str ''FIX:'') fx"
    and "\<forall>i < length pre. \<not> iprefix (str ''FIX:'') (drop i block)"
    and "\<forall>q \<in> set typographicQuotes. \<not> startsWith (trim rest) [q]"
  shows "isBlockComplete block \<longleftrightarrow>
         (let fixValue = trim rest
          in fixValue \<noteq> [] \<and>
             (\<forall>q \<in> set quoteChars.
                startsWith fixValue [q] \<longrightarrow> endsWith fixValue [q] \<and> length fixValue > 1))"
proof -
  have at: "drop (length pre) block = fx @ rest" by (simp add: assms(5))
  have ip: "iprefix (str ''FIX:'') (fx @ rest)" using assms(7) by (rule iprefix_append)
  have d4: "drop 4 (fx @ rest) = rest" using assms(6) by simp
  have fixt: "test (literalI (str ''FIX:'')) block"
    using test_literalI_at[of "length pre" block "str ''FIX:''"] at ip by (simp add: assms(5))
  have before: "\<forall>i < length pre. matchAt fixPattern (drop i block) = None"
    using assms(8) matchAt_fixPattern_none by blast
  have unfold: "isBlockComplete block =
        (case exec fixPattern block of
           None \<Rightarrow> False
         | Some fixMatch \<Rightarrow> isBlockComplete_loop quoteChars (trim (capture fixMatch 1)))"
    using assms(1-4) fixt by (simp add: isBlockComplete_def Let_def split: option.splits)
  show ?thesis
  proof (cases "rest = []")
    case True
    have "\<forall>i \<le> length block. matchAt fixPattern (drop i block) = None"
    proof (intro allI impI)
      fix i assume "i \<le> length block"
      show "matchAt fixPattern (drop i block) = None"
      proof (cases "i < length pre")
        case True
        with before show ?thesis by blast
      next
        case False
        then have "drop 4 (drop i block) = []" using True assms(5,6) by simp
        then show ?thesis by (rule matchAt_fixPattern_empty)
      qed
    qed
    then have "exec fixPattern block = None" using search_none by (simp add: exec_def)
    with True show ?thesis by (simp add: unfold trim_def trimStart_def trimEnd_def)
  next
    case False
    have ne: "drop 4 (fx @ rest) \<noteq> []" unfolding d4 using False .
    from matchAt_fixPattern_some[OF ip ne] obtain n where
      n: "n \<le> run Space rest" "drop n rest \<noteq> []"
      and m: "matchAt fixPattern (fx @ rest) = Some ([], [(1, drop n rest)])"
      unfolding d4 by blast
    have "search fixPattern block 0 = Some (0 + length pre, [], [(1, drop n rest)])"
      by (rule search_first) (use before m at assms(5) in simp_all)
    then have "exec fixPattern block = Some (mkMatch block (length pre, [], [(1, drop n rest)]))"
      by (simp add: exec_def)
    then have "isBlockComplete block = isBlockComplete_loop quoteChars (trim (drop n rest))"
      by (simp add: unfold capture_mkMatch)
    also have "trim (drop n rest) = trim rest" using n(1) by (rule trim_drop_space)
    finally show ?thesis by (simp add: isBlockComplete_loop_iff Let_def)
  qed
qed


text \<open>
  C2 as stated fails: this block contains the five field names and its \<open>FIX\<close> value is
  empty (\<open>extractField\<close> returns the empty string for it), yet \<open>isBlockComplete\<close> returns
  false. The last statement of the function, commented ``consider it complete if it has
  some content'', tests \<open>fixValue.length > 0\<close>.
\<close>

theorem isBlockComplete_empty_fix:
  "test (literalI (str ''EXCERPT:''))
     (str ''EXCERPT: a\<newline>CATEGORY: b\<newline>SEVERITY: low\<newline>PROBLEM: c\<newline>FIX: '') \<and>
   test (literalI (str ''CATEGORY:''))
     (str ''EXCERPT: a\<newline>CATEGORY: b\<newline>SEVERITY: low\<newline>PROBLEM: c\<newline>FIX: '') \<and>
   test (literalI (str ''SEVERITY:''))
     (str ''EXCERPT: a\<newline>CATEGORY: b\<newline>SEVERITY: low\<newline>PROBLEM: c\<newline>FIX: '') \<and>
   test (literalI (str ''PROBLEM:''))
     (str ''EXCERPT: a\<newline>CATEGORY: b\<newline>SEVERITY: low\<newline>PROBLEM: c\<newline>FIX: '') \<and>
   test (literalI (str ''FIX:''))
     (str ''EXCERPT: a\<newline>CATEGORY: b\<newline>SEVERITY: low\<newline>PROBLEM: c\<newline>FIX: '') \<and>
   extractField
     (str ''EXCERPT: a\<newline>CATEGORY: b\<newline>SEVERITY: low\<newline>PROBLEM: c\<newline>FIX: '')
     (str ''FIX'') None = Some [] \<and>
   \<not> isBlockComplete
     (str ''EXCERPT: a\<newline>CATEGORY: b\<newline>SEVERITY: low\<newline>PROBLEM: c\<newline>FIX: '')"
proof (intro conjI)
  show "test (literalI (str ''EXCERPT:''))
     (str ''EXCERPT: a\<newline>CATEGORY: b\<newline>SEVERITY: low\<newline>PROBLEM: c\<newline>FIX: '')"
    by code_simp
  show "test (literalI (str ''CATEGORY:''))
     (str ''EXCERPT: a\<newline>CATEGORY: b\<newline>SEVERITY: low\<newline>PROBLEM: c\<newline>FIX: '')"
    by code_simp
  show "test (literalI (str ''SEVERITY:''))
     (str ''EXCERPT: a\<newline>CATEGORY: b\<newline>SEVERITY: low\<newline>PROBLEM: c\<newline>FIX: '')"
    by code_simp
  show "test (literalI (str ''PROBLEM:''))
     (str ''EXCERPT: a\<newline>CATEGORY: b\<newline>SEVERITY: low\<newline>PROBLEM: c\<newline>FIX: '')"
    by code_simp
  show "test (literalI (str ''FIX:''))
     (str ''EXCERPT: a\<newline>CATEGORY: b\<newline>SEVERITY: low\<newline>PROBLEM: c\<newline>FIX: '')"
    by code_simp
  show "extractField
     (str ''EXCERPT: a\<newline>CATEGORY: b\<newline>SEVERITY: low\<newline>PROBLEM: c\<newline>FIX: '')
     (str ''FIX'') None = Some []"
    by code_simp
  show "\<not> isBlockComplete
     (str ''EXCERPT: a\<newline>CATEGORY: b\<newline>SEVERITY: low\<newline>PROBLEM: c\<newline>FIX: '')"
    by code_simp
qed

theorem isBlockComplete_rule_witness:
  "length (str ''FIX:'') = 4 \<and> iprefix (str ''FIX:'') (str ''FIX:'') \<and>
   trim (str '' \"d'') = str ''\"d'' \<and>
   \<not> isBlockComplete
     (str ''EXCERPT: a\<newline>CATEGORY: b\<newline>SEVERITY: low\<newline>PROBLEM: c\<newline>'' @
      str ''FIX:'' @ str '' \"d'')"
proof -
  define pre where
    "pre = str ''EXCERPT: a\<newline>CATEGORY: b\<newline>SEVERITY: low\<newline>PROBLEM: c\<newline>''"
  define W where "W = pre @ str ''FIX:'' @ str '' \"d''"
  have h1: "test (literalI (str ''EXCERPT:'')) W" unfolding W_def pre_def by code_simp
  have h2: "test (literalI (str ''CATEGORY:'')) W" unfolding W_def pre_def by code_simp
  have h3: "test (literalI (str ''SEVERITY:'')) W" unfolding W_def pre_def by code_simp
  have h4: "test (literalI (str ''PROBLEM:'')) W" unfolding W_def pre_def by code_simp
  have h6: "length (str ''FIX:'') = 4" by (simp add: str_def)
  have h7: "iprefix (str ''FIX:'') (str ''FIX:'')" by code_simp
  have "list_all (\<lambda>i. \<not> iprefix (str ''FIX:'') (drop i W)) [0..<length pre]"
    unfolding W_def pre_def by code_simp
  then have h8: "\<forall>i < length pre. \<not> iprefix (str ''FIX:'') (drop i W)"
    by (simp add: list_all_iff)
  have t: "trim (str '' \"d'') = str ''\"d''" by code_simp
  have "list_all (\<lambda>q. \<not> startsWith (trim (str '' \"d'')) [q]) typographicQuotes" by code_simp
  then have h9: "\<forall>q \<in> set typographicQuotes. \<not> startsWith (trim (str '' \"d'')) [q]"
    by (simp add: list_all_iff)
  have rhs: "\<not> (let fixValue = str ''\"d''
          in fixValue \<noteq> [] \<and>
             (\<forall>q \<in> set quoteChars.
                startsWith fixValue [q] \<longrightarrow> endsWith fixValue [q] \<and> length fixValue > 1))"
    by code_simp
  from isBlockComplete_rule[OF h1 h2 h3 h4 W_def h6 h7 h8 h9] t rhs
  have "\<not> isBlockComplete W" by simp
  with h6 h7 t show ?thesis unfolding W_def pre_def by simp
qed

text \<open>
  Outside the last two hypotheses the function reads a block as follows. The pattern
  \<open>/FIX:\s*(.+?)$/is\<close> takes the leftmost \<open>fix:\<close> of the block, in prose as well: in the
  first block below the \<open>FIX\<close> field opens a quotation that it does not close, and the
  block is complete, because the value read starts at the \<open>fix:\<close> of the \<open>PROBLEM\<close> line.
  In the second block the \<open>FIX\<close> value opens with U+201C and does not close it, and the
  block is complete, because \<open>quoteChars\<close> holds the straight marks only.
\<close>

lemma isBlockComplete_earlier_fix:
  "isBlockComplete
     (str ''EXCERPT: a\<newline>CATEGORY: b\<newline>SEVERITY: low\<newline>PROBLEM: a quick fix: x\<newline>FIX: \"abc'')"
  by code_simp

lemma isBlockComplete_typographic_open:
  "isBlockComplete
     (str ''EXCERPT: a\<newline>CATEGORY: b\<newline>SEVERITY: low\<newline>PROBLEM: c\<newline>FIX: '' @ [8220] @ str ''abc'')"
  by code_simp


section \<open>Properties of the Field Extractor\<close>

lemma lazy_first:
  "concat (map H [a..<b]) = x # xs \<Longrightarrow>
   \<exists>k. a \<le> k \<and> k < b \<and> (\<forall>p. a \<le> p \<and> p < k \<longrightarrow> H p = []) \<and> x \<in> set (H k)"
proof (induction "b - a" arbitrary: a)
  case 0
  then show ?case by simp
next
  case (Suc n)
  then have ab: "a < b" by simp
  then have upt: "[a..<b] = a # [Suc a..<b]" by (rule upt_conv_Cons)
  show ?case
  proof (cases "H a")
    case Nil
    with Suc.prems upt have "concat (map H [Suc a..<b]) = x # xs" by simp
    moreover have "n = b - Suc a" using Suc.hyps(2) by simp
    ultimately obtain k where k: "Suc a \<le> k" "k < b"
      "\<forall>p. Suc a \<le> p \<and> p < k \<longrightarrow> H p = []" "x \<in> set (H k)"
      using Suc.hyps(1)[of "Suc a"] by blast
    have "\<forall>p. a \<le> p \<and> p < k \<longrightarrow> H p = []"
    proof (intro allI impI)
      fix p assume "a \<le> p \<and> p < k"
      then show "H p = []" using k(3) Nil by (cases "p = a") auto
    qed
    with k show ?thesis by (metis Suc_leD)
  next
    case (Cons y ys)
    with Suc.prems upt have "x = y" by simp
    with Cons ab show ?thesis by (intro exI[of _ a]) auto
  qed
qed

lemma trimEnd_append_space:
  "\<forall>c \<in> set ws. isSpace c \<Longrightarrow> trimEnd (u @ ws) = trimEnd u"
  by (simp add: trimEnd_def dropWhile_append)

lemma trim_append_space:
  assumes "\<forall>c \<in> set ws. isSpace c"
  shows "trim (u @ ws) = trim u"
proof (cases "\<forall>c \<in> set u. isSpace c")
  case True
  with assms have "dropWhile isSpace (u @ ws) = []" "dropWhile isSpace u = []" by auto
  then show ?thesis by (simp only: trim_def trimStart_def)
next
  case False
  then have "dropWhile isSpace (u @ ws) = dropWhile isSpace u @ ws"
    by (auto simp: dropWhile_append)
  then show ?thesis using assms by (simp add: trim_def trimStart_def trimEnd_append_space)
qed

lemma stripQuotes_append_space:
  "\<forall>c \<in> set ws. isSpace c \<Longrightarrow> stripQuotes (u @ ws) = stripQuotes u"
  by (simp add: stripQuotes_def trim_append_space)


lemma iprefix_snoc:
  "iprefix (p @ [c]) s \<longleftrightarrow>
     iprefix p s \<and> (case drop (length p) s of [] \<Rightarrow> False | x # xs \<Rightarrow> upperASCII x = upperASCII c)"
proof (cases "length p < length s")
  case True
  then have "take (Suc (length p)) s = take (length p) s @ [s ! length p]"
    by (simp add: take_Suc_conv_app_nth)
  moreover have "drop (length p) s = s ! length p # drop (Suc (length p)) s"
    using True by (simp add: Cons_nth_drop_Suc)
  ultimately show ?thesis using True by (auto simp: iprefix_def)
next
  case False
  then show ?thesis by (auto simp: iprefix_def)
qed

lemma matches_fieldPattern:
  "matches (fieldPattern fieldName stopAt) (s, []) =
   (if iprefix (fieldName @ [58]) s
    then matches (fieldTail stopAt) (drop (length fieldName + 1) s, []) else [])"
proof -
  define colonTail where "colonTail = seqs [Sym (LitI 58), Star Space, Group 1 (LazyPlus Any),
    Star Space, stopPattern stopAt]"
  have 1: "matches (fieldPattern fieldName stopAt) (s, []) =
        concat (map (matches colonTail) (matches (literalI fieldName) (s, [])))"
    unfolding fieldPattern_def colonTail_def by (rule matches_seqs_Cons)
  have 2: "matches colonTail (u, []) =
        concat (map (matches (fieldTail stopAt)) (matches (Sym (LitI 58)) (u, [])))" for u
    unfolding fieldTail_def colonTail_def by (rule matches_seqs_Cons)
  show ?thesis
  proof (cases "iprefix fieldName s")
    case False
    then show ?thesis by (simp add: 1 matches_literalI iprefix_snoc)
  next
    case True
    then have 3: "matches (fieldPattern fieldName stopAt) (s, []) =
                  matches colonTail (drop (length fieldName) s, [])"
      by (simp add: 1 matches_literalI)
    show ?thesis
    proof (cases "drop (length fieldName) s")
      case Nil
      with True show ?thesis by (simp add: 3 2 iprefix_snoc)
    next
      case (Cons x xs)
      then have "xs = drop (length fieldName + 1) s"
        by (metis drop_Suc drop_drop list.sel(3) tl_drop Suc_eq_plus1 add.commute)
      with True Cons show ?thesis by (simp add: 3 2 iprefix_snoc)
    qed
  qed
qed

lemma matches_capture_list:
  "matches (Group i (LazyPlus Any)) (t, c) =
   map (\<lambda>k. (drop k t, (i, take k t) # c)) [1..<Suc (length t)]"
  by (simp del: upt_Suc)

lemma matches_stop:
  "stop \<noteq> [] \<Longrightarrow>
   matches (stopPattern (Some stop)) (u, c) = (if iprefix stop u \<or> u = [] then [(u, c)] else [])"
  by (simp add: stopPattern_def matches_literalI)

lemma set_matches_space_stop:
  assumes "stop \<noteq> []"
  shows "set (matches (Seq (Star Space) (stopPattern (Some stop))) (u, c)) =
   {(drop j u, c) | j. j \<le> run Space u \<and> (iprefix stop (drop j u) \<or> drop j u = [])}"
proof -
  have "set (matches (Seq (Star Space) (stopPattern (Some stop))) (u, c)) =
        (\<Union>x \<in> {(drop n u, c) | n. n \<le> run Space u}. set (matches (stopPattern (Some stop)) x))"
    by (simp only: set_matches_Seq set_matches_Star)
  also have "\<dots> = {(drop j u, c) | j. j \<le> run Space u \<and> (iprefix stop (drop j u) \<or> drop j u = [])}"
    by (auto simp: matches_stop[OF assms] split: if_splits)
  finally show ?thesis .
qed


lemma run_space_prefix:
  assumes "\<forall>c \<in> set w. isSpace c" and "t \<noteq> []" and "\<not> isSpace (hd t)"
  shows "run Space (w @ t) = length w"
proof -
  obtain x xs where t: "t = x # xs" using assms(2) by (cases t) auto
  have "takeWhile isSpace (w @ t) = w"
    using assms(1,3) by (simp add: t takeWhile_append2 takeWhile_append1)
  then show ?thesis by (simp add: run_def)
qed

lemma take_takeWhile:
  "j \<le> length (takeWhile P xs) \<Longrightarrow> \<forall>c \<in> set (take j xs). P c"
proof (induction xs arbitrary: j)
  case Nil
  show ?case by simp
next
  case (Cons x xs)
  show ?case
  proof (cases j)
    case 0
    then show ?thesis by simp
  next
    case (Suc j')
    with Cons.prems have "P x" "j' \<le> length (takeWhile P xs)" by (auto split: if_splits)
    with Cons.IH[of j'] Suc show ?thesis by simp
  qed
qed

lemma take_run_space:
  "j \<le> run Space xs \<Longrightarrow> \<forall>c \<in> set (take j xs). isSpace c"
  using take_takeWhile[of j isSpace xs] by (simp add: run_def)


lemma fieldTail_first:
  assumes v: "v \<noteq> []" "\<not> isSpace (hd v)"
    and ws: "\<forall>c \<in> set w. isSpace c"
    and stop: "iprefix stop st" "stop \<noteq> []"
    and nostop: "\<forall>i. 0 < i \<and> i < length v \<longrightarrow> \<not> iprefix stop (drop i (v @ st @ rest))"
  shows "\<exists>k rest'. 1 \<le> k \<and> k \<le> length v \<and> (\<forall>c \<in> set (drop k v). isSpace c) \<and>
           matchAt (fieldTail (Some stop)) (w @ v @ st @ rest) = Some (rest', [(1, take k v)])"
proof -
  define t where "t = v @ st @ rest"
  define spaceStop where "spaceStop = Seq (Star Space) (stopPattern (Some stop))"
  define valueTail where "valueTail = Seq (Group 1 (LazyPlus Any)) spaceStop"
  define H where "H k = matches spaceStop (drop k t, [(1, take k t)])" for k
  have tne: "t \<noteq> []" "\<not> isSpace (hd t)" using v by (simp_all add: t_def)
  have lv: "1 \<le> length v" "length v \<le> length t" using v(1) by (cases v; simp add: t_def)+
  have ft: "fieldTail (Some stop) = Seq (Star Space) valueTail"
    by (simp add: fieldTail_def valueTail_def spaceStop_def)
  have run: "run Space (w @ t) = length w" using ws tne by (rule run_space_prefix)
  have "matches (Star Space) (w @ t, []) =
        (t, []) # map (\<lambda>n. (drop n (w @ t), [])) (rev [0..<length w])"
    by (simp add: run)
  then have whole: "matches (fieldTail (Some stop)) (w @ t, []) =
        matches valueTail (t, []) @
        concat (map (matches valueTail) (map (\<lambda>n. (drop n (w @ t), [])) (rev [0..<length w])))"
    unfolding ft by (simp del: matches.simps(5))
  have vt: "matches valueTail (t, []) = concat (map H [1..<Suc (length t)])"
    unfolding valueTail_def H_def
    by (simp only: matches.simps(3) matches_capture_list map_map comp_def)
  have Hset: "set (H k) = {(drop j (drop k t), [(1, take k t)]) | j.
        j \<le> run Space (drop k t) \<and> (iprefix stop (drop j (drop k t)) \<or> drop j (drop k t) = [])}"
    for k unfolding H_def spaceStop_def by (rule set_matches_space_stop[OF stop(2)])
  have "iprefix stop (drop 0 (drop (length v) t))"
    using stop(1) by (simp add: t_def iprefix_append)
  then have "(drop 0 (drop (length v) t), [(1, take (length v) t)]) \<in> set (H (length v))"
    unfolding Hset by blast
  then have Hv: "H (length v) \<noteq> []" by auto
  have "length v \<in> set [1..<Suc (length t)]" using lv by (simp del: upt_Suc)
  with Hv have "concat (map H [1..<Suc (length t)]) \<noteq> []" by auto
  then obtain x xs where xs: "concat (map H [1..<Suc (length t)]) = x # xs"
    by (cases "concat (map H [1..<Suc (length t)])") auto
  from lazy_first[OF this] obtain k where k: "1 \<le> k" "k < Suc (length t)"
    "\<forall>p. 1 \<le> p \<and> p < k \<longrightarrow> H p = []" "x \<in> set (H k)" by blast
  have kv: "k \<le> length v"
  proof (rule ccontr)
    assume "\<not> k \<le> length v"
    then have "H (length v) = []" using k(3) lv(1) by simp
    with Hv show False by simp
  qed
  from k(4) obtain j where j: "j \<le> run Space (drop k t)"
    "iprefix stop (drop j (drop k t)) \<or> drop j (drop k t) = []"
    and x: "x = (drop j (drop k t), [(1, take k t)])"
    unfolding Hset by blast
  have tk: "take k t = take k v" using kv by (simp add: t_def)
  have sp: "\<forall>c \<in> set (drop k v). isSpace c"
  proof (cases "k + j < length v")
    case True
    then have "0 < k + j \<and> k + j < length v" using k(1) by simp
    with nostop have "\<not> iprefix stop (drop (k + j) t)" by (simp add: t_def)
    moreover have "drop (k + j) t \<noteq> []" using True lv(2) by simp
    ultimately show ?thesis using j(2) by (simp add: add.commute)
  next
    case False
    have "drop k v = take (length v - k) (drop k t)" using kv by (simp add: t_def)
    also have "\<dots> = take (length v - k) (take j (drop k t))" using False by (simp add: min_def)
    finally have "set (drop k v) \<subseteq> set (take j (drop k t))" by (metis set_take_subset)
    with take_run_space[OF j(1)] show ?thesis by blast
  qed
  have "matchAt (fieldTail (Some stop)) (w @ t) = Some x"
    by (simp only: matchAt_def whole vt xs append_Cons list.case)
  with k(1) kv sp x tk show ?thesis unfolding t_def by auto
qed


text \<open>
  C9, as the code has it. The field name and the stop marker are plain names, the stop
  marker not empty. In a block whose first occurrence of the field name and colon (in
  any case) is followed by white space \<open>w\<close>, a value \<open>v\<close> that starts with a character
  other than white space, and then the stop marker (in any case), where the stop marker
  occurs nowhere inside \<open>v\<close> after its first character, the extracted value is \<open>v\<close>,
  trimmed and quote-stripped. The value ends at the first occurrence of the stop
  marker wherever it stands, at the start of a line or not; a truncated prefix of the
  marker inside the value does not end it.
\<close>

theorem extractField_stops_at_first_stop:
  assumes "plainName fieldName"
    and "plainName stop"
    and "stop \<noteq> []"
    and "block = pre @ nm @ w @ v @ st @ rest"
    and "length nm = length fieldName + 1"
    and "iprefix (fieldName @ [58]) nm"
    and "\<forall>i < length pre. \<not> iprefix (fieldName @ [58]) (drop i block)"
    and "\<forall>c \<in> set w. isSpace c"
    and "v \<noteq> []"
    and "\<not> isSpace (hd v)"
    and "iprefix stop st"
    and "\<forall>i. 0 < i \<and> i < length v \<longrightarrow> \<not> iprefix stop (drop i (v @ st @ rest))"
  shows "extractField block fieldName (Some stop) = Some (stripQuotes v)"
proof -
  define s0 where "s0 = nm @ w @ v @ st @ rest"
  have at: "drop (length pre) block = s0" by (simp add: assms(4) s0_def)
  have ip: "iprefix (fieldName @ [58]) s0"
    unfolding s0_def using assms(6) by (rule iprefix_append)
  have dr: "drop (Suc (length fieldName)) s0 = w @ v @ st @ rest"
    using assms(5) by (simp add: s0_def)
  from fieldTail_first[OF assms(9,10,8,11,3,12)] obtain k rest' where
    k: "1 \<le> k" "k \<le> length v" "\<forall>c \<in> set (drop k v). isSpace c"
    and m: "matchAt (fieldTail (Some stop)) (w @ v @ st @ rest) = Some (rest', [(1, take k v)])"
    by blast
  have here: "matchAt (fieldPattern fieldName (Some stop)) (drop (length pre) block) =
              Some (rest', [(1, take k v)])"
    using m ip by (simp add: at matchAt_def matches_fieldPattern dr)
  have before: "\<forall>i < length pre. matchAt (fieldPattern fieldName (Some stop)) (drop i block) = None"
    using assms(7) by (simp add: matchAt_def matches_fieldPattern)
  have "length pre \<le> length block" by (simp add: assms(4))
  from search_first[OF this before here, of 0]
  have "exec (fieldPattern fieldName (Some stop)) block =
        Some (mkMatch block (length pre, rest', [(1, take k v)]))"
    by (simp add: exec_def)
  then have "extractField block fieldName (Some stop) = Some (stripQuotes (take k v))"
    by (simp add: extractField_def capture_mkMatch)
  also have "stripQuotes (take k v) = stripQuotes (take k v @ drop k v)"
    by (rule stripQuotes_append_space[OF k(3), symmetric])
  finally show ?thesis by simp
qed

text \<open>
  C9 as stated fails: the stop pattern is the lookahead \<open>(?=FIX:|$)\<close>, with no anchor at a
  line start. Here \<open>FIX:\<close> stands inside the first line of the \<open>PROBLEM\<close> value, and the
  value extracted ends there: it is ``use'', not ``use FIX: x''.
\<close>

theorem extractField_inline_stop:
  "extractField (str ''PROBLEM: use FIX: x\<newline>FIX: y'') (str ''PROBLEM'') (Some (str ''FIX:'')) =
   Some (str ''use'')"
  by code_simp

theorem extractField_stops_at_first_stop_witness:
  "plainName (str ''PROBLEM'') \<and> plainName (str ''FIX:'') \<and>
   length (str ''PROBLEM:'') = length (str ''PROBLEM'') + 1 \<and>
   iprefix (str ''PROBLEM'' @ [58]) (str ''PROBLEM:'') \<and>
   iprefix (str ''FIX:'') (str ''fix:'') \<and>
   extractField (str ''Note.\<newline>'' @ str ''PROBLEM:'' @ str '' '' @ str ''\"a FI b\" '' @ str ''fix:'' @ str '' c'')
     (str ''PROBLEM'') (Some (str ''FIX:'')) = Some (str ''a FI b'')"
proof -
  define block where "block =
    str ''Note.\<newline>'' @ str ''PROBLEM:'' @ str '' '' @ str ''\"a FI b\" '' @ str ''fix:'' @ str '' c''"
  have p1: "plainName (str ''PROBLEM'')" by code_simp
  have p2: "plainName (str ''FIX:'')" by code_simp
  have p3: "str ''FIX:'' \<noteq> []" by (simp add: str_def)
  have h2: "length (str ''PROBLEM:'') = length (str ''PROBLEM'') + 1" by (simp add: str_def)
  have h3: "iprefix (str ''PROBLEM'' @ [58]) (str ''PROBLEM:'')" by code_simp
  have "list_all (\<lambda>i. \<not> iprefix (str ''PROBLEM'' @ [58]) (drop i block))
          [0..<length (str ''Note.\<newline>'')]"
    unfolding block_def by code_simp
  then have h4: "\<forall>i < length (str ''Note.\<newline>''). \<not> iprefix (str ''PROBLEM'' @ [58]) (drop i block)"
    by (simp add: list_all_iff)
  have h5: "\<forall>c \<in> set (str '' ''). isSpace c" by code_simp
  have h6: "str ''\"a FI b\" '' \<noteq> []" by (simp add: str_def)
  have h7: "\<not> isSpace (hd (str ''\"a FI b\" ''))" by code_simp
  have h8: "iprefix (str ''FIX:'') (str ''fix:'')" by code_simp
  have "list_all (\<lambda>i. \<not> iprefix (str ''FIX:'') (drop i (str ''\"a FI b\" '' @ str ''fix:'' @ str '' c'')))
          [1..<length (str ''\"a FI b\" '')]"
    by code_simp
  then have h9: "\<forall>i. 0 < i \<and> i < length (str ''\"a FI b\" '') \<longrightarrow>
      \<not> iprefix (str ''FIX:'') (drop i (str ''\"a FI b\" '' @ str ''fix:'' @ str '' c''))"
    by (simp add: list_all_iff)
  have sq: "stripQuotes (str ''\"a FI b\" '') = str ''a FI b''" by code_simp
  from extractField_stops_at_first_stop[OF p1 p2 p3 block_def h2 h3 h4 h5 h6 h7 h8 h9] sq p1 p2 h2 h3 h8
  show ?thesis unfolding block_def by simp
qed


section \<open>Fragment boundaries\<close>

text \<open>
  A stream of one block, which the Completeness Detector and the Record Assembler
  accept.
\<close>

lemma one_block_stream_well_formed:
  "blocks (str ''---\<newline>ISSUE 1\<newline>EXCERPT: a\<newline>CATEGORY: b\<newline>SEVERITY: low\<newline>PROBLEM: c\<newline>FIX: de'') =
     [str ''EXCERPT: a\<newline>CATEGORY: b\<newline>SEVERITY: low\<newline>PROBLEM: c\<newline>FIX: de''] \<and>
   isBlockComplete (str ''EXCERPT: a\<newline>CATEGORY: b\<newline>SEVERITY: low\<newline>PROBLEM: c\<newline>FIX: de'') \<and>
   parseIssueBlock (str ''EXCERPT: a\<newline>CATEGORY: b\<newline>SEVERITY: low\<newline>PROBLEM: c\<newline>FIX: de'') \<noteq> None"
proof (intro conjI)
  show "blocks (str ''---\<newline>ISSUE 1\<newline>EXCERPT: a\<newline>CATEGORY: b\<newline>SEVERITY: low\<newline>PROBLEM: c\<newline>FIX: de'') =
     [str ''EXCERPT: a\<newline>CATEGORY: b\<newline>SEVERITY: low\<newline>PROBLEM: c\<newline>FIX: de'']"
    by code_simp
  show "isBlockComplete (str ''EXCERPT: a\<newline>CATEGORY: b\<newline>SEVERITY: low\<newline>PROBLEM: c\<newline>FIX: de'')"
    by code_simp
  show "parseIssueBlock (str ''EXCERPT: a\<newline>CATEGORY: b\<newline>SEVERITY: low\<newline>PROBLEM: c\<newline>FIX: de'') \<noteq> None"
    by code_simp
qed


end
